theory Spec2Isabelle
  imports Main "HOL-Library.Multiset"
begin

section \<open>Track records (Track.py)\<close>

text \<open>
  A track holds a title, an artist, an album and a duration string. The artist is either
  one string or a list of strings. Strings are lists of characters, a character being a
  code point below 256.
\<close>

datatype artist = Single string | Multiple "string list"

record track =
  trackTitle :: string
  trackArtist :: artist
  trackAlbum :: string
  trackDuration :: string

datatype py_error = KeyError | AttributeError

subsection \<open>Python's \<open>str\<close> of an artist value\<close>

text \<open>
  \<open>str\<close> of a string is the string itself; \<open>str\<close> of a list is the bracketed,
  comma-separated list of the \<open>repr\<close> of its elements. \<open>repr\<close> of a string picks
  the double quote when the string holds a single quote and no double quote, the single
  quote otherwise, and escapes the backslash, the chosen quote, tab, newline, carriage
  return and every character that is not printable. Below 256 the printable code points
  are 32 to 126 and 161 to 255 without 173; the others are written \<open>\xhh\<close>.
\<close>

definition hex_digit :: "nat \<Rightarrow> char" where
  "hex_digit n = (if n < 10 then char_of (48 + n) else char_of (87 + n))"

definition printable :: "char \<Rightarrow> bool" where
  "printable c = (let n = (of_char c :: nat) in (32 \<le> n \<and> n < 127) \<or> (161 \<le> n \<and> n \<noteq> 173))"

definition repr_char :: "char \<Rightarrow> char \<Rightarrow> string" where
  "repr_char q c =
     (if c = q \<or> c = CHR 0x5C then [CHR 0x5C, c]
      else if c = CHR 0x09 then [CHR 0x5C, CHR ''t'']
      else if c = CHR 0x0A then [CHR 0x5C, CHR ''n'']
      else if c = CHR 0x0D then [CHR 0x5C, CHR ''r'']
      else if \<not> printable c then
        [CHR 0x5C, CHR ''x'', hex_digit (of_char c div 16), hex_digit (of_char c mod 16)]
      else [c])"

definition repr_quote :: "string \<Rightarrow> char" where
  "repr_quote s = (if CHR 0x27 \<in> set s \<and> CHR 0x22 \<notin> set s then CHR 0x22 else CHR 0x27)"

definition py_repr :: "string \<Rightarrow> string" where
  "py_repr s = repr_quote s # concat (map (repr_char (repr_quote s)) s) @ [repr_quote s]"

fun join_comma :: "string list \<Rightarrow> string" where
  "join_comma [] = []"
| "join_comma [x] = x"
| "join_comma (x # y # ys) = x @ '', '' @ join_comma (y # ys)"

fun py_str :: "artist \<Rightarrow> string" where
  "py_str (Single s) = s"
| "py_str (Multiple l) = ''['' @ join_comma (map py_repr l) @ '']''"

subsection \<open>Accessors, serialisation and equality\<close>

definition getTitle :: "track \<Rightarrow> string" where
  "getTitle t = trackTitle t"

definition getArtist :: "track \<Rightarrow> artist" where
  "getArtist t = trackArtist t"

text \<open>
  \<open>toDict\<close> builds a dictionary with the four keys. A dictionary read back from JSON may
  lack any of them, so each key of \<open>track_dict\<close> is optional; \<open>fromDict\<close> raises
  \<open>KeyError\<close> at the first key that is absent, in the order title, artist, album,
  duration. Values of another JSON type than the field has are outside this model.
\<close>

record track_dict =
  title_key :: "string option"
  artist_key :: "artist option"
  album_key :: "string option"
  duration_key :: "string option"

definition toDict :: "track \<Rightarrow> track_dict" where
  "toDict t = \<lparr>title_key = Some (trackTitle t), artist_key = Some (trackArtist t),
               album_key = Some (trackAlbum t), duration_key = Some (trackDuration t)\<rparr>"

definition fromDict :: "track_dict \<Rightarrow> py_error + track" where
  "fromDict d =
     (case title_key d of None \<Rightarrow> Inl KeyError | Some ti \<Rightarrow>
      case artist_key d of None \<Rightarrow> Inl KeyError | Some ar \<Rightarrow>
      case album_key d of None \<Rightarrow> Inl KeyError | Some al \<Rightarrow>
      case duration_key d of None \<Rightarrow> Inl KeyError | Some du \<Rightarrow>
        Inr \<lparr>trackTitle = ti, trackArtist = ar, trackAlbum = al, trackDuration = du\<rparr>)"

text \<open>\<open>Track.__eq__\<close> on two tracks.\<close>

definition track_eq :: "track \<Rightarrow> track \<Rightarrow> bool" where
  "track_eq a b =
     (trackTitle a = trackTitle b \<and> py_str (trackArtist a) = py_str (trackArtist b) \<and>
      trackAlbum a = trackAlbum b \<and> trackDuration a = trackDuration b)"

subsection \<open>The identity rule as the specification words it\<close>

text \<open>
  The specification compares title, artist set and album after case normalisation and the
  duration string as it is. \<open>py_lower\<close> is \<open>str.lower\<close> on code points below 256.
\<close>

definition lower_char :: "char \<Rightarrow> char" where
  "lower_char c =
     (let n = (of_char c :: nat)
      in if (65 \<le> n \<and> n \<le> 90) \<or> (192 \<le> n \<and> n \<le> 222 \<and> n \<noteq> 215) then char_of (n + 32) else c)"

definition py_lower :: "string \<Rightarrow> string" where
  "py_lower s = map lower_char s"

fun artist_names :: "artist \<Rightarrow> string list" where
  "artist_names (Single s) = [s]"
| "artist_names (Multiple l) = l"

definition spec_track_eq :: "track \<Rightarrow> track \<Rightarrow> bool" where
  "spec_track_eq a b =
     (py_lower (trackTitle a) = py_lower (trackTitle b) \<and>
      set (map py_lower (artist_names (trackArtist a))) =
        set (map py_lower (artist_names (trackArtist b))) \<and>
      py_lower (trackAlbum a) = py_lower (trackAlbum b) \<and>
      trackDuration a = trackDuration b)"

section \<open>The playback queue (Queue.py)\<close>

subsection \<open>Python's \<open>random.shuffle\<close>\<close>

text \<open>
  \<open>random.shuffle\<close> walks \<open>i\<close> from the last index down to 1 and swaps position
  \<open>i\<close> with a position drawn below \<open>i + 1\<close>. The random source is the function
  \<open>rnd\<close>: \<open>rnd i\<close> is the number drawn at index \<open>i\<close>, reduced below \<open>i + 1\<close>.
\<close>

definition swap :: "nat \<Rightarrow> nat \<Rightarrow> 'a list \<Rightarrow> 'a list" where
  "swap i j xs = xs[i := xs ! j, j := xs ! i]"

fun shuffle_steps :: "(nat \<Rightarrow> nat) \<Rightarrow> nat \<Rightarrow> 'a list \<Rightarrow> 'a list" where
  "shuffle_steps rnd 0 xs = xs"
| "shuffle_steps rnd (Suc i) xs = shuffle_steps rnd i (swap (Suc i) (rnd (Suc i) mod (Suc i + 1)) xs)"

definition py_shuffle :: "(nat \<Rightarrow> nat) \<Rightarrow> 'a list \<Rightarrow> 'a list" where
  "py_shuffle rnd xs = shuffle_steps rnd (length xs - 1) xs"

subsection \<open>The persisted state\<close>

text \<open>
  The dictionary written to and read from the state file. A file read back may lack any
  key. The file itself may be absent (\<open>NoFile\<close>) or fail to open or parse
  (\<open>Unreadable\<close>).
\<close>

record state_data =
  tracks_key :: "track_dict list option"
  current_index_key :: "int option"
  is_shuffled_key :: "bool option"
  is_repeat_key :: "bool option"
  is_playing_key :: "bool option"
  original_order_key :: "track_dict list option"

datatype state_file = NoFile | Unreadable | Parsed state_data

subsection \<open>Nodes and the queue\<close>

text \<open>
  The nodes linked from the head are the list \<open>sequence\<close>, head first; the tail is its
  last node, and the forward and backward links are the neighbours in the list. A
  reference to a node of that list is its position, \<open>InSeq k\<close>. \<open>loadQueueState\<close> can
  leave the active reference on a node of the list it has just unlinked from the head:
  \<open>Detached old k\<close> is the node at position \<open>k\<close> of such a list \<open>old\<close>, which nothing
  changes any more. \<open>NoNode\<close> is \<open>None\<close>; a position outside its list refers to no node
  and is read like \<open>None\<close>.
\<close>

datatype node_ref = NoNode | InSeq nat | Detached "track list" nat

record queue =
  sequence :: "track list"
  activeNode :: node_ref
  queueSize :: int
  shuffleEnabled :: bool
  repeatEnabled :: bool
  playbackActive :: bool
  originalSequence :: "track list"
  stateFile :: state_file

definition newQueue :: "state_file \<Rightarrow> queue" where
  "newQueue f = \<lparr>sequence = [], activeNode = NoNode, queueSize = 0, shuffleEnabled = False,
                 repeatEnabled = False, playbackActive = False, originalSequence = [],
                 stateFile = f\<rparr>"

fun is_node :: "track list \<Rightarrow> node_ref \<Rightarrow> bool" where
  "is_node s NoNode = False"
| "is_node s (InSeq k) = (k < length s)"
| "is_node s (Detached old k) = (k < length old)"

fun trackData :: "track list \<Rightarrow> node_ref \<Rightarrow> track option" where
  "trackData s NoNode = None"
| "trackData s (InSeq k) = (if k < length s then Some (s ! k) else None)"
| "trackData s (Detached old k) = (if k < length old then Some (old ! k) else None)"

fun nextNode :: "track list \<Rightarrow> node_ref \<Rightarrow> node_ref" where
  "nextNode s NoNode = NoNode"
| "nextNode s (InSeq k) = (if Suc k < length s then InSeq (Suc k) else NoNode)"
| "nextNode s (Detached old k) = (if Suc k < length old then Detached old (Suc k) else NoNode)"

fun prevNode :: "track list \<Rightarrow> node_ref \<Rightarrow> node_ref" where
  "prevNode s NoNode = NoNode"
| "prevNode s (InSeq k) = (if 0 < k \<and> k < length s then InSeq (k - 1) else NoNode)"
| "prevNode s (Detached old k) = (if 0 < k \<and> k < length old then Detached old (k - 1) else NoNode)"

definition headNode :: "track list \<Rightarrow> node_ref" where
  "headNode s = (if s = [] then NoNode else InSeq 0)"

definition tailNode :: "track list \<Rightarrow> node_ref" where
  "tailNode s = (if s = [] then NoNode else InSeq (length s - 1))"

text \<open>Unlinking the list from the head: a reference into it becomes detached.\<close>

fun detach :: "track list \<Rightarrow> node_ref \<Rightarrow> node_ref" where
  "detach s NoNode = NoNode"
| "detach s (InSeq k) = (if k < length s then Detached s k else NoNode)"
| "detach s (Detached old k) = Detached old k"

subsection \<open>Persisting\<close>

text \<open>The index stored by \<open>saveQueueState\<close>: the position of the active node, or -1.\<close>

definition activeIndex :: "queue \<Rightarrow> int" where
  "activeIndex q =
     (case activeNode q of InSeq k \<Rightarrow> if k < length (sequence q) then int k else - 1 | _ \<Rightarrow> - 1)"

definition stateData :: "queue \<Rightarrow> state_data" where
  "stateData q =
     \<lparr>tracks_key = Some (map toDict (sequence q)),
      current_index_key = Some (activeIndex q),
      is_shuffled_key = Some (shuffleEnabled q),
      is_repeat_key = Some (repeatEnabled q),
      is_playing_key = Some (playbackActive q),
      original_order_key = Some (map toDict (originalSequence q))\<rparr>"

definition saveQueueState :: "queue \<Rightarrow> queue" where
  "saveQueueState q = q\<lparr>stateFile := Parsed (stateData q)\<rparr>"

subsection \<open>Adding tracks\<close>

definition addTrack :: "track \<Rightarrow> queue \<Rightarrow> bool \<times> queue" where
  "addTrack t q =
     (if list_ex (\<lambda>x. track_eq x t) (sequence q) then (False, q)
      else
        let q1 = (if sequence q = [] then q\<lparr>sequence := [t], activeNode := InSeq 0\<rparr>
                  else q\<lparr>sequence := sequence q @ [t]\<rparr>);
            q2 = q1\<lparr>queueSize := int (length (sequence q1))\<rparr>;
            q3 = (if \<not> shuffleEnabled q2 then q2\<lparr>originalSequence := originalSequence q2 @ [t]\<rparr>
                  else q2)
        in (True, q3))"

fun addAll :: "track list \<Rightarrow> queue \<Rightarrow> queue" where
  "addAll [] q = q"
| "addAll (t # ts) q = addAll ts (snd (addTrack t q))"

definition loadTracks :: "track list \<Rightarrow> queue \<Rightarrow> queue" where
  "loadTracks ts q = saveQueueState (addAll ts q)"

text \<open>\<open>handleAddTrackToQueue\<close> of Main.py, for a track the user has selected.\<close>

definition handleAddTrackToQueue :: "track \<Rightarrow> queue \<Rightarrow> queue" where
  "handleAddTrackToQueue t q =
     (case addTrack t q of (wasAdded, q') \<Rightarrow> if wasAdded then saveQueueState q' else q')"

subsection \<open>Playback and navigation\<close>

definition startPlayback :: "queue \<Rightarrow> queue" where
  "startPlayback q =
     (let q1 = (if \<not> repeatEnabled q \<and> activeNode q = tailNode (sequence q)
                then q\<lparr>activeNode := headNode (sequence q)\<rparr> else q)
      in saveQueueState (q1\<lparr>playbackActive := True\<rparr>))"

definition pausePlayback :: "queue \<Rightarrow> queue" where
  "pausePlayback q = saveQueueState (q\<lparr>playbackActive := False\<rparr>)"

text \<open>
  Both navigation operations end with \<open>return self.__activeNode.trackData\<close> after the
  state is saved; reading \<open>trackData\<close> of \<open>None\<close> raises \<open>AttributeError\<close>.
\<close>

definition returnActive :: "queue \<Rightarrow> (py_error + track option) \<times> queue" where
  "returnActive q =
     (case trackData (sequence q) (activeNode q) of
        None \<Rightarrow> (Inl AttributeError, q)
      | Some t \<Rightarrow> (Inr (Some t), q))"

definition advanceToNext :: "queue \<Rightarrow> (py_error + track option) \<times> queue" where
  "advanceToNext q =
     (if \<not> is_node (sequence q) (activeNode q) then (Inr None, q)
      else if is_node (sequence q) (nextNode (sequence q) (activeNode q)) then
        returnActive (saveQueueState (q\<lparr>activeNode := nextNode (sequence q) (activeNode q)\<rparr>))
      else if repeatEnabled q then
        returnActive (saveQueueState (q\<lparr>activeNode := headNode (sequence q)\<rparr>))
      else (Inr None, saveQueueState (q\<lparr>playbackActive := False\<rparr>)))"

definition rewindToPrevious :: "queue \<Rightarrow> (py_error + track option) \<times> queue" where
  "rewindToPrevious q =
     (if \<not> is_node (sequence q) (activeNode q) then (Inr None, q)
      else
        let q1 = (if is_node (sequence q) (prevNode (sequence q) (activeNode q))
                  then q\<lparr>activeNode := prevNode (sequence q) (activeNode q)\<rparr>
                  else if repeatEnabled q then q\<lparr>activeNode := tailNode (sequence q)\<rparr>
                  else q)
        in returnActive (saveQueueState q1))"

definition toggleRepeat :: "queue \<Rightarrow> bool \<times> queue" where
  "toggleRepeat q =
     (let q1 = saveQueueState (q\<lparr>repeatEnabled := \<not> repeatEnabled q\<rparr>)
      in (repeatEnabled q1, q1))"

definition clearQueue :: "queue \<Rightarrow> queue" where
  "clearQueue q =
     saveQueueState (q\<lparr>sequence := [], activeNode := NoNode, queueSize := 0,
                        shuffleEnabled := False, repeatEnabled := False,
                        playbackActive := False, originalSequence := []\<rparr>)"

definition getCurrentTrack :: "queue \<Rightarrow> track option" where
  "getCurrentTrack q = trackData (sequence q) (activeNode q)"

definition getSize :: "queue \<Rightarrow> int" where
  "getSize q = queueSize q"

subsection \<open>Shuffling and restoring the order\<close>

text \<open>
  The partition loop of \<open>shuffleQueue\<close>: the tracks at positions below the active
  position and the tracks at positions above it, \<open>pos\<close> being the position of the
  first track of the list.
\<close>

fun partition_at :: "int \<Rightarrow> int \<Rightarrow> track list \<Rightarrow> track list \<times> track list" where
  "partition_at a pos [] = ([], [])"
| "partition_at a pos (t # ts) =
     (case partition_at a (pos + 1) ts of (pre, fol) \<Rightarrow>
        if pos < a then (t # pre, fol) else if pos > a then (pre, t # fol) else (pre, fol))"

text \<open>The rebuild loops: one new node per track, linked after the tail, and counted.\<close>

fun appendNodes :: "track list \<Rightarrow> queue \<Rightarrow> queue" where
  "appendNodes [] q = q"
| "appendNodes (t # ts) q =
     appendNodes ts (q\<lparr>sequence := sequence q @ [t], queueSize := queueSize q + 1\<rparr>)"

definition shuffleQueue :: "(nat \<Rightarrow> nat) \<Rightarrow> queue \<Rightarrow> queue" where
  "shuffleQueue rnd q =
     (if shuffleEnabled q then q
      else if queueSize q \<le> 1 then q
      else
        let q1 = (if length (originalSequence q) = 0
                  then q\<lparr>originalSequence := originalSequence q @ sequence q\<rparr> else q);
            activePosition = activeIndex q1;
            precedingTracks = fst (partition_at activePosition 0 (sequence q1));
            followingTracks = snd (partition_at activePosition 0 (sequence q1));
            activeTrack = trackData (sequence q1) (activeNode q1);
            shuffled = py_shuffle rnd followingTracks;
            q2 = q1\<lparr>sequence := [], queueSize := 0,
                    activeNode := detach (sequence q1) (activeNode q1)\<rparr>;
            q3 = appendNodes precedingTracks q2;
            q4 = (case activeTrack of
                    None \<Rightarrow> q3
                  | Some t \<Rightarrow> (appendNodes [t] q3)\<lparr>activeNode := InSeq (length (sequence q3))\<rparr>);
            q5 = appendNodes shuffled q4;
            q6 = (if \<not> is_node (sequence q5) (activeNode q5)
                  then q5\<lparr>activeNode := headNode (sequence q5)\<rparr> else q5)
        in saveQueueState (q6\<lparr>shuffleEnabled := True\<rparr>))"

text \<open>The search loop of \<open>restoreOriginalOrder\<close>: the first node whose track equals \<open>a\<close>.\<close>

fun find_from :: "track \<Rightarrow> nat \<Rightarrow> track list \<Rightarrow> node_ref" where
  "find_from a pos [] = NoNode"
| "find_from a pos (t # ts) = (if track_eq t a then InSeq pos else find_from a (Suc pos) ts)"

definition restoreOriginalOrder :: "queue \<Rightarrow> queue" where
  "restoreOriginalOrder q =
     (if \<not> shuffleEnabled q then q
      else
        let activeTrack = trackData (sequence q) (activeNode q);
            newlyAddedTracks =
              filter (\<lambda>t. \<not> list_ex (\<lambda>origTrack. track_eq t origTrack) (originalSequence q))
                (sequence q);
            allTracks = originalSequence q @ newlyAddedTracks;
            q1 = appendNodes allTracks (q\<lparr>sequence := [], queueSize := 0\<rparr>);
            q2 = q1\<lparr>originalSequence := originalSequence q1 @ newlyAddedTracks\<rparr>;
            q3 = q2\<lparr>activeNode := (case activeTrack of
                                      None \<Rightarrow> NoNode
                                    | Some a \<Rightarrow> find_from a 0 (sequence q2))\<rparr>;
            q4 = (if \<not> is_node (sequence q3) (activeNode q3)
                  then q3\<lparr>activeNode := headNode (sequence q3)\<rparr> else q3)
        in saveQueueState (q4\<lparr>shuffleEnabled := False\<rparr>))"

subsection \<open>Restoring the persisted state\<close>

text \<open>
  The two loops over stored dictionaries stop at the first dictionary \<open>fromDict\<close>
  rejects, with what they have built so far.
\<close>

fun restoreNodes :: "track_dict list \<Rightarrow> queue \<Rightarrow> py_error option \<times> queue" where
  "restoreNodes [] q = (None, q)"
| "restoreNodes (d # ds) q =
     (case fromDict d of
        Inl e \<Rightarrow> (Some e, q)
      | Inr t \<Rightarrow> restoreNodes ds (q\<lparr>sequence := sequence q @ [t], queueSize := queueSize q + 1\<rparr>))"

fun restoreOriginal :: "track_dict list \<Rightarrow> queue \<Rightarrow> py_error option \<times> queue" where
  "restoreOriginal [] q = (None, q)"
| "restoreOriginal (d # ds) q =
     (case fromDict d of
        Inl e \<Rightarrow> (Some e, q)
      | Inr t \<Rightarrow> restoreOriginal ds (q\<lparr>originalSequence := originalSequence q @ [t]\<rparr>))"

text \<open>\<open>for i in range(n): if node: node = node.nextNode\<close>\<close>

fun walk :: "nat \<Rightarrow> track list \<Rightarrow> node_ref \<Rightarrow> node_ref" where
  "walk 0 s r = r"
| "walk (Suc n) s r = walk n s (if is_node s r then nextNode s r else r)"

text \<open>
  \<open>loadQueueState\<close> returns \<open>False\<close> when the file is absent, and when anything in the
  \<open>try\<close> block raises; what the block has assigned before the exception stays assigned.
\<close>

definition loadQueueState :: "queue \<Rightarrow> bool \<times> queue" where
  "loadQueueState q =
     (case stateFile q of
        NoFile \<Rightarrow> (False, q)
      | Unreadable \<Rightarrow> (False, q)
      | Parsed d \<Rightarrow>
          let q1 = q\<lparr>sequence := [], queueSize := 0,
                     activeNode := detach (sequence q) (activeNode q)\<rparr>
          in case tracks_key d of None \<Rightarrow> (False, q1) | Some ds \<Rightarrow>
             case restoreNodes ds q1 of (Some e, q2) \<Rightarrow> (False, q2) | (None, q2) \<Rightarrow>
             case current_index_key d of None \<Rightarrow> (False, q2) | Some i \<Rightarrow>
             let q3 = (if i \<ge> 0
                       then q2\<lparr>activeNode := walk (nat i) (sequence q2) (headNode (sequence q2))\<rparr>
                       else q2)
             in case is_shuffled_key d of None \<Rightarrow> (False, q3) | Some sh \<Rightarrow>
                let q4 = q3\<lparr>shuffleEnabled := sh\<rparr>
                in case is_repeat_key d of None \<Rightarrow> (False, q4) | Some rp \<Rightarrow>
                   let q5 = q4\<lparr>repeatEnabled := rp\<rparr>
                   in case is_playing_key d of None \<Rightarrow> (False, q5) | Some pl \<Rightarrow>
                      let q6 = q5\<lparr>playbackActive := pl, originalSequence := []\<rparr>
                      in case original_order_key d of None \<Rightarrow> (False, q6) | Some os \<Rightarrow>
                         case restoreOriginal os q6 of
                           (Some e, q7) \<Rightarrow> (False, q7)
                         | (None, q7) \<Rightarrow> (True, q7))"

subsection \<open>Reachable states\<close>

text \<open>
  The states a queue goes through: created by a process that finds the state file
  \<open>f0\<close>, then changed by the public operations; a later process starts with a new queue
  and the file the earlier one left.
\<close>

inductive reachable :: "state_file \<Rightarrow> queue \<Rightarrow> bool" for f0 :: state_file where
  r_new: "reachable f0 (newQueue f0)"
| r_restart: "reachable f0 q \<Longrightarrow> reachable f0 (newQueue (stateFile q))"
| r_addTrack: "reachable f0 q \<Longrightarrow> reachable f0 (snd (addTrack t q))"
| r_loadTracks: "reachable f0 q \<Longrightarrow> reachable f0 (loadTracks ts q)"
| r_startPlayback: "reachable f0 q \<Longrightarrow> reachable f0 (startPlayback q)"
| r_pausePlayback: "reachable f0 q \<Longrightarrow> reachable f0 (pausePlayback q)"
| r_advanceToNext: "reachable f0 q \<Longrightarrow> reachable f0 (snd (advanceToNext q))"
| r_rewindToPrevious: "reachable f0 q \<Longrightarrow> reachable f0 (snd (rewindToPrevious q))"
| r_shuffleQueue: "reachable f0 q \<Longrightarrow> reachable f0 (shuffleQueue rnd q)"
| r_restoreOriginalOrder: "reachable f0 q \<Longrightarrow> reachable f0 (restoreOriginalOrder q)"
| r_toggleRepeat: "reachable f0 q \<Longrightarrow> reachable f0 (snd (toggleRepeat q))"
| r_clearQueue: "reachable f0 q \<Longrightarrow> reachable f0 (clearQueue q)"
| r_saveQueueState: "reachable f0 q \<Longrightarrow> reachable f0 (saveQueueState q)"
| r_loadQueueState: "reachable f0 q \<Longrightarrow> reachable f0 (snd (loadQueueState q))"

subsection \<open>Repeated navigation and example data\<close>

definition track_a :: track where
  "track_a = \<lparr>trackTitle = ''Alpha'', trackArtist = Single ''Ann'', trackAlbum = ''First'',
               trackDuration = ''3:05''\<rparr>"

definition track_b :: track where
  "track_b = \<lparr>trackTitle = ''Beta'', trackArtist = Multiple [''Ann'', ''Bob''],
               trackAlbum = ''First'', trackDuration = ''4:10''\<rparr>"

definition track_c :: track where
  "track_c = \<lparr>trackTitle = ''Gamma'', trackArtist = Single ''Cy'', trackAlbum = ''Second'',
               trackDuration = ''2:45''\<rparr>"

definition queue_abc :: queue where
  "queue_abc = addAll [track_a, track_b, track_c] (newQueue NoFile)"

definition advances :: "nat \<Rightarrow> queue \<Rightarrow> queue" where
  "advances n q = ((\<lambda>q. snd (advanceToNext q)) ^^ n) q"

subsection \<open>Predicates on the persisted state\<close>

text \<open>The state file holds the serialisation of the queue as it is now.\<close>

definition in_sync :: "queue \<Rightarrow> bool" where
  "in_sync q = (stateFile q = Parsed (stateData q))"

text \<open>
  Stored data \<open>loadQueueState\<close> can read to the end: every key is there, and every
  stored track has its four keys.
\<close>

definition complete_dict :: "track_dict \<Rightarrow> bool" where
  "complete_dict d =
     (title_key d \<noteq> None \<and> artist_key d \<noteq> None \<and> album_key d \<noteq> None \<and> duration_key d \<noteq> None)"

definition well_formed :: "state_data \<Rightarrow> bool" where
  "well_formed d =
     ((case tracks_key d of None \<Rightarrow> False | Some ds \<Rightarrow> list_all complete_dict ds) \<and>
      current_index_key d \<noteq> None \<and> is_shuffled_key d \<noteq> None \<and> is_repeat_key d \<noteq> None \<and>
      is_playing_key d \<noteq> None \<and>
      (case original_order_key d of None \<Rightarrow> False | Some os \<Rightarrow> list_all complete_dict os))"

text \<open>Stored data without the key \<open>current_index\<close>.\<close>

definition broken_data :: state_data where
  "broken_data =
     \<lparr>tracks_key = Some [toDict track_a], current_index_key = None,
      is_shuffled_key = Some False, is_repeat_key = Some False, is_playing_key = Some False,
      original_order_key = Some [toDict track_a]\<rparr>"

subsection \<open>Invariants of the queue\<close>

text \<open>What \<open>Track.__eq__\<close> compares: two tracks are equal when their keys are.\<close>

definition track_key :: "track \<Rightarrow> string \<times> string \<times> string \<times> string" where
  "track_key t = (trackTitle t, py_str (trackArtist t), trackAlbum t, trackDuration t)"

text \<open>
  The size is the number of nodes; a queue that is not empty has its active node in the
  sequence; a queue that is not shuffled has its sequence as original order; no two nodes
  hold equal tracks, and no two entries of the original order are equal.
\<close>

fun active_ok :: "track list \<Rightarrow> node_ref \<Rightarrow> bool" where
  "active_ok s NoNode = (s = [])"
| "active_ok s (InSeq k) = (k < length s)"
| "active_ok s (Detached old k) = (s = [])"

definition consistent :: "queue \<Rightarrow> bool" where
  "consistent q =
     (queueSize q = int (length (sequence q)) \<and>
      active_ok (sequence q) (activeNode q) \<and>
      (shuffleEnabled q \<or> originalSequence q = sequence q) \<and>
      distinct (map track_key (sequence q)) \<and>
      distinct (map track_key (originalSequence q)))"

text \<open>The state file is absent or was written for a consistent queue.\<close>

definition file_consistent :: "state_file \<Rightarrow> bool" where
  "file_consistent f = (f = NoFile \<or> (\<exists>q. consistent q \<and> f = Parsed (stateData q)))"

subsection \<open>Reading a rendered artist list back\<close>

text \<open>
  The inverse of \<open>repr_char\<close>, used to show that \<open>str\<close> renders different lists of
  strings differently: \<open>unescape q\<close> reads one character, escaped or plain, from the front
  of a string and returns it with the rest.
\<close>

definition unhex :: "char \<Rightarrow> nat" where
  "unhex h = (if (of_char h :: nat) < 58 then of_char h - 48 else of_char h - 87)"

fun unescape :: "char \<Rightarrow> string \<Rightarrow> char \<times> string" where
  "unescape q (x # y # h # l # zs) =
     (if x \<noteq> CHR 0x5C then (x, y # h # l # zs)
      else if y = CHR ''x'' then (char_of (unhex h * 16 + unhex l), zs)
      else if y = CHR ''t'' then (CHR 0x09, h # l # zs)
      else if y = CHR ''n'' then (CHR 0x0A, h # l # zs)
      else if y = CHR ''r'' then (CHR 0x0D, h # l # zs)
      else (y, h # l # zs))"
| "unescape q (x # y # zs) =
     (if x \<noteq> CHR 0x5C then (x, y # zs)
      else if y = CHR ''t'' then (CHR 0x09, zs)
      else if y = CHR ''n'' then (CHR 0x0A, zs)
      else if y = CHR ''r'' then (CHR 0x0D, zs)
      else (y, zs))"
| "unescape q zs = (case zs of [] \<Rightarrow> (q, []) | x # xs \<Rightarrow> (x, xs))"

text \<open>Two artist values of the same Python type.\<close>

fun same_kind :: "artist \<Rightarrow> artist \<Rightarrow> bool" where
  "same_kind (Single x) (Single y) = True"
| "same_kind (Multiple x) (Multiple y) = True"
| "same_kind x y = False"

text \<open>Example tracks that differ from \<open>track_a\<close> and \<open>track_b\<close> in one field.\<close>

definition track_a_caps :: track where
  "track_a_caps = track_a\<lparr>trackTitle := ''ALPHA''\<rparr>"

definition track_b_flat :: track where
  "track_b_flat = track_b\<lparr>trackArtist := Single (''['' @ [CHR 0x27] @ ''Ann'' @ [CHR 0x27] @ '', '' @
                                                   [CHR 0x27] @ ''Bob'' @ [CHR 0x27] @ '']'')\<rparr>"

text \<open>
  Stored data that \<open>loadQueueState\<close> accepts and no run of the program has written: the
  original order is the sequence reversed. \<open>queue_edited\<close> is the queue a new process
  restores from it.
\<close>

definition edited_data :: state_data where
  "edited_data =
     \<lparr>tracks_key = Some [toDict track_a, toDict track_b, toDict track_c],
      current_index_key = Some 0,
      is_shuffled_key = Some False, is_repeat_key = Some False, is_playing_key = Some False,
      original_order_key = Some [toDict track_c, toDict track_b, toDict track_a]\<rparr>"

definition queue_edited :: queue where
  "queue_edited = snd (loadQueueState (newQueue (Parsed edited_data)))"

text \<open>
  Stored data with no active index: \<open>queue_no_cursor\<close>, restored from it by a new process,
  has three tracks and no active node.
\<close>

definition no_cursor_data :: state_data where
  "no_cursor_data =
     \<lparr>tracks_key = Some [toDict track_a, toDict track_b, toDict track_c],
      current_index_key = Some (- 1),
      is_shuffled_key = Some False, is_repeat_key = Some False, is_playing_key = Some False,
      original_order_key = Some [toDict track_a, toDict track_b, toDict track_c]\<rparr>"

definition queue_no_cursor :: queue where
  "queue_no_cursor = snd (loadQueueState (newQueue (Parsed no_cursor_data)))"

section \<open>Properties\<close>

subsection \<open>The loops and the shuffle\<close>

lemma appendNodes_eq:
  "appendNodes ts q = q\<lparr>sequence := sequence q @ ts, queueSize := queueSize q + int (length ts)\<rparr>"
  by (induction ts arbitrary: q) auto

lemma partition_at_lt: "a < pos \<Longrightarrow> partition_at a pos ts = ([], ts)"
  by (induction ts arbitrary: pos) auto

lemma partition_at_ge:
  "pos \<le> a \<Longrightarrow> partition_at a pos ts = (take (nat (a - pos)) ts, drop (Suc (nat (a - pos))) ts)"
proof (induction ts arbitrary: pos)
  case Nil
  then show ?case by simp
next
  case (Cons t ts)
  show ?case
  proof (cases "pos = a")
    case True
    have "partition_at a (a + 1) ts = ([], ts)" 
      by (rule partition_at_lt) simp
    then show ?thesis using True by simp
  next
    case False
    with Cons.prems have lt: "pos + 1 \<le> a" by simp
    have n: "nat (a - pos) = Suc (nat (a - (pos + 1)))" using lt by simp
    show ?thesis using Cons.IH[OF lt] False Cons.prems
      by (simp add: n)
  qed
qed

lemma mset_swap': "i < length xs \<Longrightarrow> j < length xs \<Longrightarrow> mset (swap i j xs) = mset xs"
  unfolding swap_def by (simp add: mset_swap)

lemma length_swap [simp]: "length (swap i j xs) = length xs"
  by (simp add: swap_def)

lemma shuffle_steps_mset: "i < length xs \<Longrightarrow> mset (shuffle_steps rnd i xs) = mset xs"
proof (induction i arbitrary: xs)
  case 0
  then show ?case by simp
next
  case (Suc i)
  have j: "rnd (Suc i) mod (Suc i + 1) < length xs"
  proof -
    have "rnd (Suc i) mod (Suc i + 1) < Suc i + 1" by (rule mod_less_divisor) simp
    with Suc.prems show ?thesis by linarith
  qed
  show ?case using Suc j by (simp add: mset_swap')
qed

lemma py_shuffle_mset: "mset (py_shuffle rnd xs) = mset xs"
  by (cases xs) (simp_all add: py_shuffle_def shuffle_steps_mset)

lemma py_shuffle_length: "length (py_shuffle rnd xs) = length xs"
  using py_shuffle_mset [of rnd xs] by (metis size_mset)

subsection \<open>Duplicates and navigation\<close>

text \<open>
  C9, amended: when the queue already holds a track equal to the argument by
  \<open>Track.__eq__\<close>, which compares the four fields as they are, \<open>addTrack\<close> returns
  \<open>False\<close> and changes nothing: sequence, size, active node, flags, original order and
  state file are those of the queue before.
\<close>

theorem addTrack_duplicate:
  "list_ex (\<lambda>x. track_eq x t) (sequence q) \<Longrightarrow> addTrack t q = (False, q)"
  by (simp add: addTrack_def)

text \<open>
  C8: in a queue that is not empty and has repeat on, \<open>advanceToNext\<close> with the active
  node at the tail returns the head's track and makes the head active, and
  \<open>rewindToPrevious\<close> with the active node at the head returns the tail's track and makes
  the tail active.
\<close>
theorem repeat_wraps:
  assumes "sequence q \<noteq> []" and "repeatEnabled q"
  shows "(activeNode q = tailNode (sequence q) \<longrightarrow>
            fst (advanceToNext q) = Inr (Some (hd (sequence q))) \<and>
            activeNode (snd (advanceToNext q)) = headNode (sequence (snd (advanceToNext q)))) \<and>
         (activeNode q = headNode (sequence q) \<longrightarrow>
            fst (rewindToPrevious q) = Inr (Some (last (sequence q))) \<and>
            activeNode (snd (rewindToPrevious q)) = tailNode (sequence (snd (rewindToPrevious q))))"
  using assms
  by (auto simp: advanceToNext_def rewindToPrevious_def returnActive_def saveQueueState_def
      tailNode_def headNode_def hd_conv_nth last_conv_nth Let_def)

lemma advanceToNext_step:
  assumes "activeNode q = InSeq i" and "Suc i < length (sequence q)"
  shows "advanceToNext q =
           (Inr (Some (sequence q ! Suc i)), saveQueueState (q\<lparr>activeNode := InSeq (Suc i)\<rparr>))"
  using assms by (simp add: advanceToNext_def returnActive_def saveQueueState_def)

lemma advances_Suc: "advances (Suc n) q = snd (advanceToNext (advances n q))"
  by (simp add: advances_def)

lemma advances_state:
  assumes "activeNode q = InSeq 0" and "i < length (sequence q)"
  shows "activeNode (advances i q) = InSeq i \<and> sequence (advances i q) = sequence q \<and>
         repeatEnabled (advances i q) = repeatEnabled q"
  using assms(2)
proof (induction i)
  case 0
  then show ?case using assms(1) by (simp add: advances_def)
next
  case (Suc i)
  then have ih: "activeNode (advances i q) = InSeq i" "sequence (advances i q) = sequence q"
    "repeatEnabled (advances i q) = repeatEnabled q" by simp_all
  have "Suc i < length (sequence (advances i q))" using Suc.prems ih by simp
  from advanceToNext_step [OF ih(1) this] ih show ?case
    by (simp add: advances_Suc saveQueueState_def)
qed

text \<open>
  C7: in a queue of more than one track with repeat off and the active node at the head,
  each of the first \<open>N - 1\<close> calls of \<open>advanceToNext\<close> returns the track it has made
  active, the next one in the sequence; after them the active node is the tail. One more
  call returns \<open>None\<close>, leaves \<open>playing\<close> false and leaves the tail active.
\<close>
theorem advanceToNext_reaches_tail:
  assumes "1 < length (sequence q)" and "\<not> repeatEnabled q" and "activeNode q = InSeq 0"
  shows "(\<forall>i < length (sequence q) - 1.
            fst (advanceToNext (advances i q)) = Inr (Some (sequence q ! Suc i)) \<and>
            activeNode (advances (Suc i) q) = InSeq (Suc i)) \<and>
         activeNode (advances (length (sequence q) - 1) q) = tailNode (sequence q) \<and>
         fst (advanceToNext (advances (length (sequence q) - 1) q)) = Inr None \<and>
         \<not> playbackActive (snd (advanceToNext (advances (length (sequence q) - 1) q))) \<and>
         activeNode (snd (advanceToNext (advances (length (sequence q) - 1) q))) =
           tailNode (sequence q)"
proof -
  let ?n = "length (sequence q) - 1"
  have steps: "fst (advanceToNext (advances i q)) = Inr (Some (sequence q ! Suc i)) \<and>
      activeNode (advances (Suc i) q) = InSeq (Suc i)" if "i < ?n" for i
  proof -
    from that have i: "i < length (sequence q)" and si: "Suc i < length (sequence q)" by simp_all
    from advances_state [OF assms(3) i] si advanceToNext_step [of "advances i q" i]
    have "advanceToNext (advances i q) =
           (Inr (Some (sequence q ! Suc i)), saveQueueState ((advances i q)\<lparr>activeNode := InSeq (Suc i)\<rparr>))"
      by simp
    then show ?thesis by (simp add: advances_Suc saveQueueState_def)
  qed
  have n: "?n < length (sequence q)" using assms(1) by simp
  note st = advances_state [OF assms(3) n]
  have tl: "tailNode (sequence q) = InSeq ?n" using assms(1) by (auto simp: tailNode_def)
  have last: "advanceToNext (advances ?n q) =
      (Inr None, saveQueueState ((advances ?n q)\<lparr>playbackActive := False\<rparr>))"
  proof -
    have "\<not> Suc ?n < length (sequence (advances ?n q))" using st assms(1) by simp
    then show ?thesis using st assms(2) n by (simp add: advanceToNext_def)
  qed
  show ?thesis using steps st tl last by (simp add: saveQueueState_def)
qed

subsection \<open>Persisting and restoring\<close>

lemma fromDict_toDict: "fromDict (toDict t) = Inr t"
  by (simp add: fromDict_def toDict_def)

lemma restoreNodes_toDict:
  "restoreNodes (map toDict ts) q =
     (None, q\<lparr>sequence := sequence q @ ts, queueSize := queueSize q + int (length ts)\<rparr>)"
  by (induction ts arbitrary: q) (auto simp: fromDict_toDict)

lemma restoreOriginal_toDict:
  "restoreOriginal (map toDict ts) q = (None, q\<lparr>originalSequence := originalSequence q @ ts\<rparr>)"
  by (induction ts arbitrary: q) (auto simp: fromDict_toDict)

lemma walk_InSeq: "j + n < length s \<Longrightarrow> walk n s (InSeq j) = InSeq (j + n)"
  by (induction n arbitrary: j) auto

lemma activeIndex_detached:
  "activeIndex (q\<lparr>sequence := s, activeNode := detach s' r\<rparr>) = - 1"
  by (cases r) (auto simp: activeIndex_def)

lemma loadQueueState_saved:
  "loadQueueState (q0\<lparr>stateFile := Parsed (stateData q)\<rparr>) =
     (True, q0\<lparr>sequence := sequence q, queueSize := int (length (sequence q)),
               activeNode := (if 0 \<le> activeIndex q then InSeq (nat (activeIndex q))
                              else detach (sequence q0) (activeNode q0)),
               shuffleEnabled := shuffleEnabled q, repeatEnabled := repeatEnabled q,
               playbackActive := playbackActive q, originalSequence := originalSequence q,
               stateFile := Parsed (stateData q)\<rparr>)"
proof (cases "0 \<le> activeIndex q")
  case True
  then have "nat (activeIndex q) < length (sequence q)"
    by (auto simp: activeIndex_def split: node_ref.splits if_splits)
  then have w: "walk (nat (activeIndex q)) (sequence q) (headNode (sequence q)) = InSeq (nat (activeIndex q))"
    using walk_InSeq [of 0 "nat (activeIndex q)" "sequence q"] by (auto simp: headNode_def)
  show ?thesis using True w
    by (simp add: loadQueueState_def stateData_def restoreNodes_toDict restoreOriginal_toDict)
next
  case False
  then show ?thesis
    by (simp add: loadQueueState_def stateData_def restoreNodes_toDict restoreOriginal_toDict)
qed

text \<open>
  C2: restoring from what \<open>saveQueueState\<close> has written for a queue \<open>q\<close>, into any
  queue \<open>q0\<close>, succeeds and gives the sequence of \<open>q\<close>, the same active index, the same
  three flags and the same original order. When the active node of \<open>q\<close> is the node at
  position \<open>k\<close> of its sequence, the active node after the restore is the node at
  position \<open>k\<close> of the restored sequence, with the same track. When no node of the
  sequence of \<open>q\<close> is active, the restoring queue keeps the reference it had, which is then
  on no node of the restored sequence.
\<close>

theorem persist_restore_roundtrip:
  "fst (loadQueueState (q0\<lparr>stateFile := stateFile (saveQueueState q)\<rparr>)) = True \<and>
   sequence (snd (loadQueueState (q0\<lparr>stateFile := stateFile (saveQueueState q)\<rparr>))) = sequence q \<and>
   activeIndex (snd (loadQueueState (q0\<lparr>stateFile := stateFile (saveQueueState q)\<rparr>))) = activeIndex q \<and>
   (\<forall>k. activeNode q = InSeq k \<longrightarrow> k < length (sequence q) \<longrightarrow>
      activeNode (snd (loadQueueState (q0\<lparr>stateFile := stateFile (saveQueueState q)\<rparr>))) = InSeq k \<and>
      getCurrentTrack (snd (loadQueueState (q0\<lparr>stateFile := stateFile (saveQueueState q)\<rparr>))) =
        getCurrentTrack q) \<and>
   ((\<forall>k. activeNode q = InSeq k \<longrightarrow> \<not> k < length (sequence q)) \<longrightarrow>
      activeNode (snd (loadQueueState (q0\<lparr>stateFile := stateFile (saveQueueState q)\<rparr>))) =
        detach (sequence q0) (activeNode q0)) \<and>
   shuffleEnabled (snd (loadQueueState (q0\<lparr>stateFile := stateFile (saveQueueState q)\<rparr>))) = shuffleEnabled q \<and>
   repeatEnabled (snd (loadQueueState (q0\<lparr>stateFile := stateFile (saveQueueState q)\<rparr>))) = repeatEnabled q \<and>
   playbackActive (snd (loadQueueState (q0\<lparr>stateFile := stateFile (saveQueueState q)\<rparr>))) = playbackActive q \<and>
   originalSequence (snd (loadQueueState (q0\<lparr>stateFile := stateFile (saveQueueState q)\<rparr>))) = originalSequence q"
proof -
  let ?r = "snd (loadQueueState (q0\<lparr>stateFile := Parsed (stateData q)\<rparr>))"
  have f: "stateFile (saveQueueState q) = Parsed (stateData q)" by (simp add: saveQueueState_def)
  have idx: "activeIndex ?r = activeIndex q"
  proof (cases "0 \<le> activeIndex q")
    case True
    then have "nat (activeIndex q) < length (sequence q)"
      by (auto simp: activeIndex_def split: node_ref.splits if_splits)
    with True show ?thesis by (simp add: loadQueueState_saved activeIndex_def)
  next
    case False
    moreover have "activeIndex q = - 1 \<or> 0 \<le> activeIndex q"
      by (auto simp: activeIndex_def split: node_ref.splits)
    ultimately have m: "activeIndex q = - 1" by simp
    show ?thesis using False m
      by (cases "activeNode q0") (auto simp add: loadQueueState_saved activeIndex_def)
  qed
  have inseq: "activeNode ?r = InSeq k \<and> getCurrentTrack ?r = getCurrentTrack q"
    if "activeNode q = InSeq k" and "k < length (sequence q)" for k
    using that by (simp add: loadQueueState_saved activeIndex_def getCurrentTrack_def)
  have none: "activeNode ?r = detach (sequence q0) (activeNode q0)"
    if "\<forall>k. activeNode q = InSeq k \<longrightarrow> \<not> k < length (sequence q)"
  proof -
    from that have "activeIndex q = - 1"
      by (cases "activeNode q") (simp_all add: activeIndex_def)
    then show ?thesis by (simp add: loadQueueState_saved)
  qed
  have base: "fst (loadQueueState (q0\<lparr>stateFile := Parsed (stateData q)\<rparr>)) = True"
    "sequence ?r = sequence q" "shuffleEnabled ?r = shuffleEnabled q"
    "repeatEnabled ?r = repeatEnabled q" "playbackActive ?r = playbackActive q"
    "originalSequence ?r = originalSequence q"
    by (simp_all add: loadQueueState_saved)
  show ?thesis unfolding f using base idx inseq none by blast
qed

subsection \<open>The example queue\<close>

lemma queue_abc_eq:
  "queue_abc = \<lparr>sequence = [track_a, track_b, track_c], activeNode = InSeq 0, queueSize = 3,
     shuffleEnabled = False, repeatEnabled = False, playbackActive = False,
     originalSequence = [track_a, track_b, track_c], stateFile = NoFile\<rparr>"
  by (simp add: queue_abc_def addTrack_def newQueue_def track_eq_def track_a_def track_b_def
      track_c_def)

theorem persist_restore_roundtrip_witness:
  "activeNode (snd (advanceToNext queue_abc)) = InSeq 1 \<and>
   1 < length (sequence (snd (advanceToNext queue_abc))) \<and>
   activeNode (snd (loadQueueState ((newQueue NoFile)\<lparr>stateFile :=
     stateFile (saveQueueState (snd (advanceToNext queue_abc)))\<rparr>))) = InSeq 1 \<and>
   getCurrentTrack (snd (loadQueueState ((newQueue NoFile)\<lparr>stateFile :=
     stateFile (saveQueueState (snd (advanceToNext queue_abc)))\<rparr>))) = Some track_b \<and>
   activeNode (newQueue NoFile) = NoNode \<and>
   activeNode (snd (loadQueueState (queue_abc\<lparr>stateFile :=
     stateFile (saveQueueState (newQueue NoFile))\<rparr>))) = Detached [track_a, track_b, track_c] 0"
proof -
  let ?q = "snd (advanceToNext queue_abc)"
  have h: "activeNode ?q = InSeq 1" "1 < length (sequence ?q)"
    "getCurrentTrack ?q = Some track_b"
    by (simp_all add: queue_abc_eq advanceToNext_def returnActive_def saveQueueState_def
        getCurrentTrack_def)
  have n: "activeNode (newQueue NoFile) = NoNode" by (simp add: newQueue_def)
  then have n': "\<forall>k. activeNode (newQueue NoFile) = InSeq k \<longrightarrow>
      \<not> k < length (sequence (newQueue NoFile))" by simp
  have d: "detach (sequence queue_abc) (activeNode queue_abc) = Detached [track_a, track_b, track_c] 0"
    by (simp add: queue_abc_eq)
  note a = persist_restore_roundtrip [where ?q0.0 = "newQueue NoFile" and q = ?q, THEN conjunct2, THEN conjunct2,
      THEN conjunct2, THEN conjunct1, rule_format, OF h(1,2)]
  note b = persist_restore_roundtrip [where ?q0.0 = queue_abc and q = "newQueue NoFile", THEN conjunct2,
      THEN conjunct2, THEN conjunct2, THEN conjunct2, THEN conjunct1, THEN mp, OF n']
  from a b h n d show ?thesis by simp
qed

theorem addTrack_duplicate_witness:
  "list_ex (\<lambda>x. track_eq x track_b) (sequence queue_abc) \<and>
   addTrack track_b queue_abc = (False, queue_abc)"
proof -
  have h: "list_ex (\<lambda>x. track_eq x track_b) (sequence queue_abc)"
    by (simp add: queue_abc_eq track_eq_def)
  from addTrack_duplicate [OF h] h show ?thesis by simp
qed

text \<open>
  C9 as stated fails: the queue holds a track that the identity rule of the specification
  makes equal to the argument, the titles differing only in case, and \<open>addTrack\<close> returns
  \<open>True\<close> and appends the argument.
\<close>

theorem addTrack_case_variant_added:
  "list_ex (\<lambda>x. spec_track_eq x track_a_caps) (sequence queue_abc) \<and>
   fst (addTrack track_a_caps queue_abc) \<and>
   sequence (snd (addTrack track_a_caps queue_abc)) = [track_a, track_b, track_c, track_a_caps]"
proof -
  have e: "spec_track_eq track_a track_a_caps" by code_simp
  have n: "\<not> track_eq track_a track_a_caps" "\<not> track_eq track_b track_a_caps"
    "\<not> track_eq track_c track_a_caps"
    by (simp_all add: track_eq_def track_a_def track_b_def track_c_def track_a_caps_def)
  show ?thesis using e n by (simp add: addTrack_def queue_abc_eq Let_def)
qed

theorem repeat_wraps_witness:
  "sequence (queue_abc\<lparr>repeatEnabled := True, activeNode := InSeq 2\<rparr>) \<noteq> [] \<and>
   repeatEnabled (queue_abc\<lparr>repeatEnabled := True, activeNode := InSeq 2\<rparr>) \<and>
   activeNode (queue_abc\<lparr>repeatEnabled := True, activeNode := InSeq 2\<rparr>) =
     tailNode (sequence (queue_abc\<lparr>repeatEnabled := True, activeNode := InSeq 2\<rparr>)) \<and>
   fst (advanceToNext (queue_abc\<lparr>repeatEnabled := True, activeNode := InSeq 2\<rparr>)) =
     Inr (Some track_a) \<and>
   activeNode (snd (advanceToNext (queue_abc\<lparr>repeatEnabled := True, activeNode := InSeq 2\<rparr>))) =
     InSeq 0 \<and>
   sequence (queue_abc\<lparr>repeatEnabled := True\<rparr>) \<noteq> [] \<and>
   repeatEnabled (queue_abc\<lparr>repeatEnabled := True\<rparr>) \<and>
   activeNode (queue_abc\<lparr>repeatEnabled := True\<rparr>) =
     headNode (sequence (queue_abc\<lparr>repeatEnabled := True\<rparr>)) \<and>
   fst (rewindToPrevious (queue_abc\<lparr>repeatEnabled := True\<rparr>)) = Inr (Some track_c) \<and>
   activeNode (snd (rewindToPrevious (queue_abc\<lparr>repeatEnabled := True\<rparr>))) = InSeq 2"
proof -
  let ?t = "queue_abc\<lparr>repeatEnabled := True, activeNode := InSeq 2\<rparr>"
  let ?h = "queue_abc\<lparr>repeatEnabled := True\<rparr>"
  have t: "sequence ?t \<noteq> []" "repeatEnabled ?t" "activeNode ?t = tailNode (sequence ?t)"
    by (simp_all add: queue_abc_eq tailNode_def)
  have h: "sequence ?h \<noteq> []" "repeatEnabled ?h" "activeNode ?h = headNode (sequence ?h)"
    by (simp_all add: queue_abc_eq headNode_def)
  have sq: "sequence (snd (advanceToNext ?t)) = [track_a, track_b, track_c]"
    "sequence (snd (rewindToPrevious ?h)) = [track_a, track_b, track_c]"
    by (simp_all add: queue_abc_eq advanceToNext_def rewindToPrevious_def returnActive_def
        saveQueueState_def headNode_def tailNode_def)
  from repeat_wraps [OF t(1,2)] repeat_wraps [OF h(1,2)] t h sq show ?thesis
    by (simp add: queue_abc_eq headNode_def tailNode_def)
qed

theorem advanceToNext_reaches_tail_witness:
  "1 < length (sequence queue_abc) \<and> \<not> repeatEnabled queue_abc \<and> activeNode queue_abc = InSeq 0 \<and>
   fst (advanceToNext (advances 0 queue_abc)) = Inr (Some track_b) \<and>
   activeNode (advances 1 queue_abc) = InSeq 1 \<and>
   fst (advanceToNext (advances 1 queue_abc)) = Inr (Some track_c) \<and>
   activeNode (advances 2 queue_abc) = InSeq 2 \<and>
   fst (advanceToNext (advances 2 queue_abc)) = Inr None \<and>
   \<not> playbackActive (snd (advanceToNext (advances 2 queue_abc))) \<and>
   activeNode (snd (advanceToNext (advances 2 queue_abc))) = InSeq 2"
proof -
  have h: "1 < length (sequence queue_abc)" "\<not> repeatEnabled queue_abc"
    "activeNode queue_abc = InSeq 0"
    by (simp_all add: queue_abc_eq)
  have l: "length (sequence queue_abc) - 1 = 2" "sequence queue_abc = [track_a, track_b, track_c]"
    by (simp_all add: queue_abc_eq)
  from advanceToNext_reaches_tail [OF h] h show ?thesis
    unfolding l by (simp add: tailNode_def numeral_2_eq_2 All_less_Suc)
qed

subsection \<open>Shuffling keeps the history\<close>

lemma shuffleQueue_active:
  assumes "\<not> shuffleEnabled q" and "1 < queueSize q" and "activeNode q = InSeq k"
    and "k < length (sequence q)"
  shows "shuffleQueue rnd q =
     saveQueueState (q\<lparr>originalSequence :=
                          (if originalSequence q = [] then sequence q else originalSequence q),
                        sequence := take k (sequence q) @
                                      sequence q ! k # py_shuffle rnd (drop (Suc k) (sequence q)),
                        queueSize := int (length (sequence q)),
                        activeNode := InSeq k,
                        shuffleEnabled := True\<rparr>)"
proof -
  have ai: "activeIndex q = int k" using assms(3,4) by (simp add: activeIndex_def)
  have p: "partition_at (int k) 0 (sequence q) = (take k (sequence q), drop (Suc k) (sequence q))"
    using partition_at_ge [of 0 "int k" "sequence q"] by simp
  have len: "int (min (length (sequence q)) k) + 1 + int (length (sequence q) - Suc k) = int (length (sequence q))"
    using assms(4) by simp
  have k': "k < Suc (length (sequence q) - Suc 0)" using assms(4) by simp
  show ?thesis using assms ai p len k'
    by (intro queue.equality)
      (simp_all add: shuffleQueue_def Let_def appendNodes_eq py_shuffle_length
        saveQueueState_def stateData_def activeIndex_def)
qed

text \<open>
  C3: in a queue of \<open>N > 1\<close> tracks that is not shuffled, with the active node at
  position \<open>k\<close>, \<open>shuffleQueue\<close> leaves the first \<open>k\<close> entries as they were, keeps the
  same track at position \<open>k\<close> and the active node on it, and makes the entries after it
  a permutation of those that followed before, whatever the random source draws.
\<close>

theorem shuffleQueue_preserves_history:
  assumes "queueSize q = int (length (sequence q))" and "1 < length (sequence q)"
    and "\<not> shuffleEnabled q" and "activeNode q = InSeq k" and "k < length (sequence q)"
  shows "take k (sequence (shuffleQueue rnd q)) = take k (sequence q) \<and>
         sequence (shuffleQueue rnd q) ! k = sequence q ! k \<and>
         activeNode (shuffleQueue rnd q) = InSeq k \<and>
         getCurrentTrack (shuffleQueue rnd q) = getCurrentTrack q \<and>
         mset (drop (Suc k) (sequence (shuffleQueue rnd q))) = mset (drop (Suc k) (sequence q)) \<and>
         length (sequence (shuffleQueue rnd q)) = length (sequence q) \<and>
         shuffleEnabled (shuffleQueue rnd q)"
proof -
  have s: "1 < queueSize q" using assms(1,2) by simp
  note eq = shuffleQueue_active [OF assms(3) s assms(4,5)]
  have sq: "sequence (shuffleQueue rnd q) =
      take k (sequence q) @ sequence q ! k # py_shuffle rnd (drop (Suc k) (sequence q))"
    by (simp add: eq saveQueueState_def)
  have lt: "length (take k (sequence q)) = k" using assms(5) by simp
  have d: "drop (Suc k) (sequence (shuffleQueue rnd q)) = py_shuffle rnd (drop (Suc k) (sequence q))"
    unfolding sq using lt by simp
  have n: "sequence (shuffleQueue rnd q) ! k = sequence q ! k"
    unfolding sq using lt by (simp add: nth_append)
  have t: "take k (sequence (shuffleQueue rnd q)) = take k (sequence q)"
    unfolding sq using lt by simp
  have l: "length (sequence (shuffleQueue rnd q)) = length (sequence q)"
    unfolding sq using assms(5) by (simp add: py_shuffle_length)
  have a: "activeNode (shuffleQueue rnd q) = InSeq k" "shuffleEnabled (shuffleQueue rnd q)"
    by (simp_all add: eq saveQueueState_def)
  show ?thesis using t n a d l assms(4,5) by (simp add: py_shuffle_mset getCurrentTrack_def)
qed

theorem shuffleQueue_preserves_history_witness:
  "queueSize queue_abc = int (length (sequence queue_abc)) \<and> 1 < length (sequence queue_abc) \<and>
   \<not> shuffleEnabled queue_abc \<and> activeNode queue_abc = InSeq 0 \<and>
   0 < length (sequence queue_abc) \<and>
   sequence (shuffleQueue (\<lambda>i. 0) queue_abc) = [track_a, track_c, track_b] \<and>
   take 0 (sequence (shuffleQueue (\<lambda>i. 0) queue_abc)) = take 0 (sequence queue_abc) \<and>
   sequence (shuffleQueue (\<lambda>i. 0) queue_abc) ! 0 = track_a \<and>
   activeNode (shuffleQueue (\<lambda>i. 0) queue_abc) = InSeq 0 \<and>
   mset (drop (Suc 0) (sequence (shuffleQueue (\<lambda>i. 0) queue_abc))) = mset [track_b, track_c] \<and>
   shuffleEnabled (shuffleQueue (\<lambda>i. 0) queue_abc)"
proof -
  have h: "queueSize queue_abc = int (length (sequence queue_abc))"
    "1 < length (sequence queue_abc)" "\<not> shuffleEnabled queue_abc"
    "activeNode queue_abc = InSeq 0" "0 < length (sequence queue_abc)"
    by (simp_all add: queue_abc_eq)
  have s: "1 < queueSize queue_abc" by (simp add: queue_abc_eq)
  have sq: "sequence (shuffleQueue (\<lambda>i. 0) queue_abc) = [track_a, track_c, track_b]"
    unfolding shuffleQueue_active [OF h(3) s h(4,5)]
    by (simp add: queue_abc_eq saveQueueState_def py_shuffle_def swap_def)
  from shuffleQueue_preserves_history [OF h, of "\<lambda>i. 0"] h sq show ?thesis
    by (simp add: queue_abc_eq)
qed

subsection \<open>The size counts the nodes\<close>

lemma addTrack_size:
  "queueSize q = int (length (sequence q)) \<Longrightarrow>
   queueSize (snd (addTrack t q)) = int (length (sequence (snd (addTrack t q))))"
  by (simp add: addTrack_def Let_def)

lemma addAll_size:
  "queueSize q = int (length (sequence q)) \<Longrightarrow>
   queueSize (addAll ts q) = int (length (sequence (addAll ts q)))"
  by (induction ts arbitrary: q) (simp_all add: addTrack_size)

lemma navigation_size:
  "queueSize (snd (advanceToNext q)) = queueSize q"
  "sequence (snd (advanceToNext q)) = sequence q"
  "queueSize (snd (rewindToPrevious q)) = queueSize q"
  "sequence (snd (rewindToPrevious q)) = sequence q"
  by (simp_all add: advanceToNext_def rewindToPrevious_def returnActive_def saveQueueState_def
      Let_def split: option.splits)

lemma shuffleQueue_size:
  "queueSize q = int (length (sequence q)) \<Longrightarrow>
   queueSize (shuffleQueue rnd q) = int (length (sequence (shuffleQueue rnd q)))"
  by (simp add: shuffleQueue_def Let_def appendNodes_eq saveQueueState_def split: option.splits)

lemma restoreOriginalOrder_size:
  "queueSize q = int (length (sequence q)) \<Longrightarrow>
   queueSize (restoreOriginalOrder q) = int (length (sequence (restoreOriginalOrder q)))"
  by (simp add: restoreOriginalOrder_def Let_def appendNodes_eq saveQueueState_def)

lemma restoreNodes_size:
  "queueSize q = int (length (sequence q)) \<Longrightarrow>
   queueSize (snd (restoreNodes ds q)) = int (length (sequence (snd (restoreNodes ds q))))"
  by (induction ds arbitrary: q) (simp_all split: sum.splits)

lemma restoreOriginal_size:
  "queueSize (snd (restoreOriginal ds q)) = queueSize q \<and>
   sequence (snd (restoreOriginal ds q)) = sequence q"
  by (induction ds arbitrary: q) (simp_all split: sum.splits)

lemma loadQueueState_size:
  assumes "queueSize q = int (length (sequence q))"
  shows "queueSize (snd (loadQueueState q)) = int (length (sequence (snd (loadQueueState q))))"
proof (cases "stateFile q")
  case (Parsed d)
  let ?q1 = "q\<lparr>sequence := [], queueSize := 0, activeNode := detach (sequence q) (activeNode q)\<rparr>"
  have r: "queueSize (snd (restoreNodes ds ?q1)) = int (length (sequence (snd (restoreNodes ds ?q1))))"
    for ds by (rule restoreNodes_size) simp
  show ?thesis
  proof (cases "tracks_key d")
    case None
    with Parsed show ?thesis by (simp add: loadQueueState_def)
  next
    case (Some ds)
    obtain e q2 where rn: "restoreNodes ds ?q1 = (e, q2)" by (cases "restoreNodes ds ?q1")
    with r [of ds] have q2: "queueSize q2 = int (length (sequence q2))" by simp
    have ro: "queueSize q'' = queueSize q' \<and> sequence q'' = sequence q'"
      if "restoreOriginal os q' = (e', q'')" for os q' e' q''
      using restoreOriginal_size [of os q'] that by simp
    show ?thesis using Parsed Some rn q2
      by (auto simp: loadQueueState_def Let_def split: option.splits prod.splits dest!: ro)
  qed
qed (use assms in \<open>simp_all add: loadQueueState_def\<close>)

text \<open>
  C10: in every state the public operations reach, from whatever state file the first
  process finds, \<open>getSize\<close> is the number of nodes linked from the head.
\<close>

theorem getSize_counts_nodes:
  "reachable f0 q \<Longrightarrow> getSize q = int (length (sequence q))"
  unfolding getSize_def
proof (induction rule: reachable.induct)
  case r_new
  show ?case by (simp add: newQueue_def)
next
  case (r_restart q)
  show ?case by (simp add: newQueue_def)
next
  case (r_addTrack q t)
  from r_addTrack.IH show ?case by (rule addTrack_size)
next
  case (r_loadTracks q ts)
  then show ?case using addAll_size [of q ts] by (simp add: loadTracks_def saveQueueState_def)
next
  case (r_startPlayback q)
  then show ?case by (simp add: startPlayback_def saveQueueState_def Let_def)
next
  case (r_pausePlayback q)
  then show ?case by (simp add: pausePlayback_def saveQueueState_def)
next
  case (r_advanceToNext q)
  then show ?case by (simp add: navigation_size)
next
  case (r_rewindToPrevious q)
  then show ?case by (simp add: navigation_size)
next
  case (r_shuffleQueue q rnd)
  from r_shuffleQueue.IH show ?case by (rule shuffleQueue_size)
next
  case (r_restoreOriginalOrder q)
  from r_restoreOriginalOrder.IH show ?case by (rule restoreOriginalOrder_size)
next
  case (r_toggleRepeat q)
  then show ?case by (simp add: toggleRepeat_def saveQueueState_def Let_def)
next
  case (r_clearQueue q)
  show ?case by (simp add: clearQueue_def saveQueueState_def)
next
  case (r_saveQueueState q)
  then show ?case by (simp add: saveQueueState_def)
next
  case (r_loadQueueState q)
  from r_loadQueueState.IH show ?case by (rule loadQueueState_size)
qed

lemma reachable_queue_abc: "reachable NoFile queue_abc"
  unfolding queue_abc_def by (simp add: r_new r_addTrack)

theorem getSize_counts_nodes_witness:
  "reachable NoFile queue_abc \<and> getSize queue_abc = int (length [track_a, track_b, track_c])"
  using getSize_counts_nodes [OF reachable_queue_abc] reachable_queue_abc
  by (simp add: queue_abc_eq)

subsection \<open>Which operations persist\<close>

lemma stateData_stateFile [simp]: "stateData (q\<lparr>stateFile := f\<rparr>) = stateData q"
  by (simp add: stateData_def activeIndex_def split: node_ref.splits)

lemma in_sync_saveQueueState: "in_sync (saveQueueState q)"
  by (simp add: in_sync_def saveQueueState_def)

lemma returnActive_snd: "snd (returnActive q) = q"
  by (simp add: returnActive_def split: option.splits)

lemma in_sync_returnActive: "in_sync q \<Longrightarrow> in_sync (snd (returnActive q))"
  by (simp add: returnActive_def split: option.splits)

text \<open>
  C6 as stated fails for \<open>addTrack\<close>: on a queue whose state file is up to date, a
  successful \<open>addTrack\<close> changes the queue and leaves the file as it was.
\<close>

theorem addTrack_alone_not_persisted:
  "in_sync (clearQueue (newQueue NoFile)) \<and>
   fst (addTrack track_a (clearQueue (newQueue NoFile))) \<and>
   \<not> in_sync (snd (addTrack track_a (clearQueue (newQueue NoFile))))"
  by (simp add: in_sync_def clearQueue_def newQueue_def saveQueueState_def addTrack_def
      stateData_def activeIndex_def)

text \<open>
  C6, amended: the state file holds the serialisation of the queue after every call of
  \<open>loadTracks\<close>, \<open>startPlayback\<close>, \<open>pausePlayback\<close>, \<open>toggleRepeat\<close> and
  \<open>clearQueue\<close>, and after every call of \<open>advanceToNext\<close>, \<open>rewindToPrevious\<close>,
  \<open>shuffleQueue\<close> and \<open>restoreOriginalOrder\<close> that does not return with queue and file
  exactly as they were. The same holds of the caller's \<open>handleAddTrackToQueue\<close>, which
  saves after a successful add. \<open>addTrack\<close> itself never writes the state file.
\<close>

theorem operations_persist:
  "in_sync (loadTracks ts q) \<and> in_sync (startPlayback q) \<and> in_sync (pausePlayback q) \<and>
   in_sync (snd (toggleRepeat q)) \<and> in_sync (clearQueue q) \<and>
   (snd (advanceToNext q) = q \<or> in_sync (snd (advanceToNext q))) \<and>
   (snd (rewindToPrevious q) = q \<or> in_sync (snd (rewindToPrevious q))) \<and>
   (shuffleQueue rnd q = q \<or> in_sync (shuffleQueue rnd q)) \<and>
   (restoreOriginalOrder q = q \<or> in_sync (restoreOriginalOrder q)) \<and>
   (handleAddTrackToQueue t q = q \<or> in_sync (handleAddTrackToQueue t q)) \<and>
   stateFile (snd (addTrack t q)) = stateFile q"
proof -
  have "in_sync (loadTracks ts q)" "in_sync (startPlayback q)" "in_sync (pausePlayback q)"
    "in_sync (snd (toggleRepeat q))" "in_sync (clearQueue q)"
    by (simp_all add: loadTracks_def startPlayback_def pausePlayback_def toggleRepeat_def
        clearQueue_def Let_def in_sync_saveQueueState)
  moreover have "snd (advanceToNext q) = q \<or> in_sync (snd (advanceToNext q))"
    by (simp add: advanceToNext_def returnActive_snd in_sync_saveQueueState)
  moreover have "snd (rewindToPrevious q) = q \<or> in_sync (snd (rewindToPrevious q))"
    by (simp add: rewindToPrevious_def Let_def returnActive_snd in_sync_saveQueueState)
  moreover have "shuffleQueue rnd q = q \<or> in_sync (shuffleQueue rnd q)"
    by (simp add: shuffleQueue_def Let_def in_sync_saveQueueState)
  moreover have "restoreOriginalOrder q = q \<or> in_sync (restoreOriginalOrder q)"
    by (simp add: restoreOriginalOrder_def Let_def in_sync_saveQueueState)
  moreover have "handleAddTrackToQueue t q = q \<or> in_sync (handleAddTrackToQueue t q)"
    by (simp add: handleAddTrackToQueue_def addTrack_def Let_def in_sync_saveQueueState)
  moreover have "stateFile (snd (addTrack t q)) = stateFile q"
    by (simp add: addTrack_def Let_def)
  ultimately show ?thesis by blast
qed

theorem operations_persist_witness:
  "\<not> in_sync queue_abc \<and> in_sync (pausePlayback queue_abc) \<and>
   snd (advanceToNext queue_abc) \<noteq> queue_abc \<and> in_sync (snd (advanceToNext queue_abc)) \<and>
   shuffleQueue (\<lambda>i. 0) queue_abc \<noteq> queue_abc \<and> in_sync (shuffleQueue (\<lambda>i. 0) queue_abc) \<and>
   restoreOriginalOrder queue_abc = queue_abc \<and>
   handleAddTrackToQueue track_a queue_abc = queue_abc \<and>
   stateFile (snd (addTrack track_a queue_abc)) = NoFile"
proof -
  have n: "\<not> in_sync queue_abc" "stateFile queue_abc = NoFile"
    by (simp_all add: in_sync_def queue_abc_eq)
  have a: "snd (advanceToNext queue_abc) \<noteq> queue_abc"
  proof
    assume "snd (advanceToNext queue_abc) = queue_abc"
    then have "activeNode (snd (advanceToNext queue_abc)) = activeNode queue_abc" by simp
    then show False
      by (simp add: queue_abc_eq advanceToNext_def returnActive_def saveQueueState_def)
  qed
  have s: "shuffleQueue (\<lambda>i. 0) queue_abc \<noteq> queue_abc"
  proof
    assume "shuffleQueue (\<lambda>i. 0) queue_abc = queue_abc"
    then have "shuffleEnabled (shuffleQueue (\<lambda>i. 0) queue_abc) = shuffleEnabled queue_abc"
      by simp
    then show False by (simp add: queue_abc_eq shuffleQueue_def Let_def saveQueueState_def)
  qed
  have r: "restoreOriginalOrder queue_abc = queue_abc"
    by (simp add: restoreOriginalOrder_def queue_abc_eq)
  have h: "handleAddTrackToQueue track_a queue_abc = queue_abc"
    by (simp add: handleAddTrackToQueue_def addTrack_def queue_abc_eq track_eq_def)
  from operations_persist [of "[]" queue_abc "\<lambda>i. 0" track_a] n a s r h show ?thesis by simp
qed

subsection \<open>A restore that fails\<close>

lemma restoreNodes_ok:
  "(fst (restoreNodes ds q) = None) = list_all complete_dict ds"
  by (induction ds arbitrary: q)
    (auto simp: fromDict_def complete_dict_def split: sum.splits option.splits)

lemma restoreOriginal_ok:
  "(fst (restoreOriginal ds q) = None) = list_all complete_dict ds"
  by (induction ds arbitrary: q)
    (auto simp: fromDict_def complete_dict_def split: sum.splits option.splits)

text \<open>
  C5 as stated fails: with no state file, \<open>loadQueueState\<close> on a queue of three
  tracks reports failure and leaves the three tracks in the queue.
\<close>

theorem loadQueueState_failure_counterexample:
  "loadQueueState queue_abc = (False, queue_abc) \<and> sequence queue_abc \<noteq> [] \<and>
   getSize queue_abc = 3"
  by (simp add: loadQueueState_def queue_abc_eq getSize_def)

text \<open>
  C5, amended: \<open>loadQueueState\<close> always returns. When the state file is absent or cannot
  be read it returns \<open>False\<close> and leaves the queue exactly as it was, so a new queue stays
  empty. On parsed data it returns \<open>True\<close> exactly when no key is missing, \<open>False\<close>
  otherwise.
\<close>

theorem loadQueueState_reports_failure:
  "(stateFile q = NoFile \<or> stateFile q = Unreadable \<longrightarrow> loadQueueState q = (False, q)) \<and>
   (\<forall>d. stateFile q = Parsed d \<longrightarrow> fst (loadQueueState q) = well_formed d)"
proof (intro conjI allI impI)
  assume "stateFile q = NoFile \<or> stateFile q = Unreadable"
  then show "loadQueueState q = (False, q)" by (auto simp: loadQueueState_def)
next
  fix d
  assume p: "stateFile q = Parsed d"
  have rn: "(e = None) = list_all complete_dict ds" if "restoreNodes ds q' = (e, q'')" for ds q' e q''
    using restoreNodes_ok [of ds q'] that by simp
  have ro: "(e = None) = list_all complete_dict ds" if "restoreOriginal ds q' = (e, q'')" for ds q' e q''
    using restoreOriginal_ok [of ds q'] that by simp
  show "fst (loadQueueState q) = well_formed d"
    using p
    by (auto simp: loadQueueState_def well_formed_def Let_def
        split: option.splits prod.splits dest: rn ro)
qed

theorem loadQueueState_reports_failure_witness:
  "stateFile (newQueue NoFile) = NoFile \<and>
   loadQueueState (newQueue NoFile) = (False, newQueue NoFile) \<and>
   stateFile (newQueue (Parsed broken_data)) = Parsed broken_data \<and>
   \<not> well_formed broken_data \<and>
   \<not> fst (loadQueueState (newQueue (Parsed broken_data)))"
proof -
  have h: "stateFile (newQueue NoFile) = NoFile"
    "stateFile (newQueue (Parsed broken_data)) = Parsed broken_data"
    by (simp_all add: newQueue_def)
  have w: "\<not> well_formed broken_data" by (simp add: well_formed_def broken_data_def)
  from loadQueueState_reports_failure [of "newQueue NoFile"]
    loadQueueState_reports_failure [of "newQueue (Parsed broken_data)"] h w
  show ?thesis by simp
qed

lemma loadQueueState_partial_restore:
  "sequence (snd (loadQueueState (newQueue (Parsed broken_data)))) = [track_a]"
  by (simp add: loadQueueState_def newQueue_def broken_data_def fromDict_toDict)

subsection \<open>The invariant of the reachable states\<close>

lemma track_eq_key: "track_eq a b = (track_key a = track_key b)"
  by (auto simp: track_eq_def track_key_def)

lemma list_ex_track_eq: "list_ex (\<lambda>x. track_eq x t) xs = (track_key t \<in> set (map track_key xs))"
  by (induction xs) (auto simp: track_eq_key)

lemma list_ex_track_eq': "list_ex (\<lambda>x. track_eq t x) xs = (track_key t \<in> set (map track_key xs))"
  by (induction xs) (auto simp: track_eq_key)

lemma consistent_stateFile [simp]: "consistent (q\<lparr>stateFile := f\<rparr>) = consistent q"
  by (simp add: consistent_def)

lemma consistent_saveQueueState: "consistent (saveQueueState q) = consistent q"
  by (simp add: saveQueueState_def)

lemma consistent_flags [simp]:
  "consistent (q\<lparr>playbackActive := b\<rparr>) = consistent q"
  "consistent (q\<lparr>repeatEnabled := b\<rparr>) = consistent q"
  by (simp_all add: consistent_def)

lemma consistent_newQueue: "consistent (newQueue f)"
  by (simp add: consistent_def newQueue_def)

lemma consistent_addTrack: "consistent q \<Longrightarrow> consistent (snd (addTrack t q))"
  by (cases "activeNode q") (auto simp: addTrack_def Let_def consistent_def list_ex_track_eq)

lemma stateFile_addTrack: "stateFile (snd (addTrack t q)) = stateFile q"
  by (simp add: addTrack_def Let_def)

lemma consistent_addAll: "consistent q \<Longrightarrow> consistent (addAll ts q)"
  by (induction ts arbitrary: q) (simp_all add: consistent_addTrack)

lemma consistent_active:
  "consistent q \<Longrightarrow> active_ok (sequence q) r \<Longrightarrow> consistent (q\<lparr>activeNode := r\<rparr>)"
  by (simp add: consistent_def)

lemma consistent_active_ok: "consistent q \<Longrightarrow> active_ok (sequence q) (activeNode q)"
  by (simp add: consistent_def)

lemma active_ok_headNode: "active_ok s (headNode s)"
  by (simp add: headNode_def)

lemma active_ok_tailNode: "active_ok s (tailNode s)"
  by (simp add: tailNode_def)

lemma active_ok_nextNode: "active_ok s r \<Longrightarrow> is_node s (nextNode s r) \<Longrightarrow> active_ok s (nextNode s r)"
  by (cases r) (auto split: if_splits)

lemma active_ok_prevNode: "active_ok s r \<Longrightarrow> is_node s (prevNode s r) \<Longrightarrow> active_ok s (prevNode s r)"
  by (cases r) (auto split: if_splits)

lemma consistent_startPlayback: "consistent q \<Longrightarrow> consistent (startPlayback q)"
  by (simp add: startPlayback_def Let_def consistent_saveQueueState consistent_active
      active_ok_headNode)

lemma consistent_advanceToNext: "consistent q \<Longrightarrow> consistent (snd (advanceToNext q))"
  by (simp add: advanceToNext_def returnActive_snd consistent_saveQueueState consistent_active
      active_ok_headNode active_ok_nextNode consistent_active_ok)

lemma consistent_rewindToPrevious: "consistent q \<Longrightarrow> consistent (snd (rewindToPrevious q))"
  by (simp add: rewindToPrevious_def Let_def returnActive_snd consistent_saveQueueState
      consistent_active active_ok_tailNode active_ok_prevNode consistent_active_ok)

lemma consistent_clearQueue: "consistent (clearQueue q)"
  unfolding clearQueue_def consistent_saveQueueState by (simp add: consistent_def)

lemma mset_rebuilt:
  assumes "k < length s"
  shows "mset (take k s @ s ! k # py_shuffle rnd (drop (Suc k) s)) = mset s"
proof -
  have "mset s = mset (take k s @ s ! k # drop (Suc k) s)"
    using id_take_nth_drop [OF assms] by simp
  then show ?thesis by (simp add: py_shuffle_mset)
qed

lemma distinct_keys_mset:
  "mset xs = mset ys \<Longrightarrow> distinct (map track_key ys) \<Longrightarrow> distinct (map track_key xs)"
proof -
  assume "mset xs = mset ys" and d: "distinct (map track_key ys)"
  then have "mset (map track_key xs) = mset (map track_key ys)" by simp
  from mset_eq_imp_distinct_iff [OF this] d show ?thesis by simp
qed

lemma consistent_shuffleQueue:
  assumes "consistent q"
  shows "consistent (shuffleQueue rnd q)"
proof (cases "shuffleEnabled q \<or> queueSize q \<le> 1")
  case True
  then show ?thesis using assms by (auto simp: shuffleQueue_def)
next
  case False
  then have sh: "\<not> shuffleEnabled q" and sz: "1 < queueSize q" by simp_all
  from assms sz have ne: "sequence q \<noteq> []" by (auto simp: consistent_def)
  from consistent_active_ok [OF assms] ne obtain k where
    k: "activeNode q = InSeq k" "k < length (sequence q)"
    by (cases "activeNode q") simp_all
  let ?s = "take k (sequence q) @ sequence q ! k # py_shuffle rnd (drop (Suc k) (sequence q))"
  have m: "mset ?s = mset (sequence q)" using k(2) by (rule mset_rebuilt)
  have "distinct (map track_key (sequence q))" using assms by (simp add: consistent_def)
  with m have d: "distinct (map track_key ?s)" by (rule distinct_keys_mset)
  have l: "length ?s = length (sequence q)" using m by (metis size_mset)
  have o: "distinct (map track_key (originalSequence q))" "distinct (map track_key (sequence q))"
    using assms by (simp_all add: consistent_def)
  show ?thesis
    unfolding shuffleQueue_active [OF sh sz k] consistent_saveQueueState
    using d l k(2) o unfolding consistent_def by simp
qed

lemma find_from_not_detached: "find_from a p ts \<noteq> Detached old k"
  by (induction ts arbitrary: p) auto

lemma active_ok_fallback:
  "(\<And>old k. r \<noteq> Detached old k) \<Longrightarrow> active_ok s (if is_node s r then r else headNode s)"
  by (cases r) (auto simp: headNode_def)

lemma restoreOriginalOrder_shuffled:
  assumes "shuffleEnabled q"
    and "new = filter (\<lambda>t. \<not> list_ex (\<lambda>origTrack. track_eq t origTrack) (originalSequence q))
                 (sequence q)"
    and "r = (case trackData (sequence q) (activeNode q) of None \<Rightarrow> NoNode
              | Some a \<Rightarrow> find_from a 0 (originalSequence q @ new))"
  shows "restoreOriginalOrder q =
     saveQueueState (q\<lparr>sequence := originalSequence q @ new,
                        queueSize := int (length (originalSequence q @ new)),
                        originalSequence := originalSequence q @ new,
                        activeNode := (if is_node (originalSequence q @ new) r then r
                                       else headNode (originalSequence q @ new)),
                        shuffleEnabled := False\<rparr>)"
  using assms
  by (intro queue.equality)
    (simp_all add: restoreOriginalOrder_def Let_def appendNodes_eq saveQueueState_def
      cong: option.case_cong)

lemma consistent_restoreOriginalOrder:
  assumes "consistent q"
  shows "consistent (restoreOriginalOrder q)"
proof (cases "shuffleEnabled q")
  case False
  then show ?thesis using assms by (simp add: restoreOriginalOrder_def)
next
  case True
  let ?new = "filter (\<lambda>t. \<not> list_ex (\<lambda>origTrack. track_eq t origTrack) (originalSequence q))
                (sequence q)"
  let ?all = "originalSequence q @ ?new"
  let ?r = "case trackData (sequence q) (activeNode q) of None \<Rightarrow> NoNode
            | Some a \<Rightarrow> find_from a 0 ?all"
  have nd: "?r \<noteq> Detached old k" for old k
    by (simp add: find_from_not_detached split: option.splits)
  note eq = restoreOriginalOrder_shuffled [OF True refl refl]
  have d1: "distinct (map track_key (originalSequence q))"
    and d2: "distinct (map track_key (sequence q))"
    using assms by (simp_all add: consistent_def)
  have d: "distinct (map track_key ?all)"
    using d1 d2 by (auto simp: distinct_map_filter list_ex_track_eq')
  show ?thesis
    unfolding eq consistent_saveQueueState
    using d active_ok_fallback [of ?r ?all, OF nd] unfolding consistent_def by simp
qed

lemma consistent_loadQueueState:
  assumes "consistent q" and "file_consistent (stateFile q)"
  shows "consistent (snd (loadQueueState q)) \<and> stateFile (snd (loadQueueState q)) = stateFile q"
proof (cases "stateFile q = NoFile")
  case True
  then show ?thesis using assms(1) by (simp add: loadQueueState_def)
next
  case False
  with assms(2) obtain q' where q': "consistent q'" "stateFile q = Parsed (stateData q')"
    by (auto simp: file_consistent_def)
  have "q = q\<lparr>stateFile := Parsed (stateData q')\<rparr>" using q'(2) by simp
  then have ld: "loadQueueState q = loadQueueState (q\<lparr>stateFile := Parsed (stateData q')\<rparr>)"
    by simp
  have a: "active_ok (sequence q') (if 0 \<le> activeIndex q' then InSeq (nat (activeIndex q'))
                                    else detach (sequence q) (activeNode q))"
    using consistent_active_ok [OF q'(1)]
    by (cases "activeNode q'"; cases "activeNode q") (auto simp: activeIndex_def)
  show ?thesis
    unfolding ld loadQueueState_saved using q' a by (simp add: consistent_def)
qed

lemma file_consistent_in_sync: "in_sync q \<Longrightarrow> consistent q \<Longrightarrow> file_consistent (stateFile q)"
  by (auto simp: in_sync_def file_consistent_def)

lemma file_consistent_step:
  assumes "q' = q \<or> in_sync q'" and "consistent q'" and "file_consistent (stateFile q)"
  shows "file_consistent (stateFile q')"
  using assms file_consistent_in_sync by auto

lemma saved_or_same:
  "snd (advanceToNext q) = q \<or> in_sync (snd (advanceToNext q))"
  "snd (rewindToPrevious q) = q \<or> in_sync (snd (rewindToPrevious q))"
  "shuffleQueue rnd q = q \<or> in_sync (shuffleQueue rnd q)"
  "restoreOriginalOrder q = q \<or> in_sync (restoreOriginalOrder q)"
  by (simp_all add: advanceToNext_def rewindToPrevious_def shuffleQueue_def
      restoreOriginalOrder_def Let_def returnActive_snd in_sync_saveQueueState)

lemma saved:
  "in_sync (loadTracks ts q)" "in_sync (startPlayback q)" "in_sync (pausePlayback q)"
  "in_sync (snd (toggleRepeat q))" "in_sync (clearQueue q)"
  by (simp_all add: loadTracks_def startPlayback_def pausePlayback_def toggleRepeat_def
      clearQueue_def Let_def in_sync_saveQueueState)

lemma reachable_consistent:
  "reachable NoFile q \<Longrightarrow> consistent q \<and> file_consistent (stateFile q)"
proof (induction rule: reachable.induct)
  case r_new
  have "stateFile (newQueue NoFile) = NoFile" by (simp add: newQueue_def)
  then show ?case by (simp add: consistent_newQueue file_consistent_def)
next
  case (r_restart q)
  have "stateFile (newQueue (stateFile q)) = stateFile q" by (simp add: newQueue_def)
  then show ?case using r_restart.IH by (simp add: consistent_newQueue)
next
  case (r_addTrack q t)
  then show ?case by (simp add: consistent_addTrack stateFile_addTrack)
next
  case (r_loadTracks q ts)
  then have "consistent (loadTracks ts q)"
    by (simp add: loadTracks_def consistent_saveQueueState consistent_addAll)
  then show ?case using saved(1) by (simp add: file_consistent_in_sync)
next
  case (r_startPlayback q)
  then have "consistent (startPlayback q)" by (simp add: consistent_startPlayback)
  then show ?case using saved(2) by (simp add: file_consistent_in_sync)
next
  case (r_pausePlayback q)
  then have "consistent (pausePlayback q)"
    by (simp add: pausePlayback_def consistent_saveQueueState)
  then show ?case using saved(3) by (simp add: file_consistent_in_sync)
next
  case (r_advanceToNext q)
  then have "consistent (snd (advanceToNext q))" by (simp add: consistent_advanceToNext)
  then show ?case using file_consistent_step [OF saved_or_same(1)] r_advanceToNext.IH by simp
next
  case (r_rewindToPrevious q)
  then have "consistent (snd (rewindToPrevious q))" by (simp add: consistent_rewindToPrevious)
  then show ?case using file_consistent_step [OF saved_or_same(2)] r_rewindToPrevious.IH by simp
next
  case (r_shuffleQueue q rnd)
  then have "consistent (shuffleQueue rnd q)" by (simp add: consistent_shuffleQueue)
  then show ?case using file_consistent_step [OF saved_or_same(3)] r_shuffleQueue.IH by simp
next
  case (r_restoreOriginalOrder q)
  then have "consistent (restoreOriginalOrder q)" by (simp add: consistent_restoreOriginalOrder)
  then show ?case using file_consistent_step [OF saved_or_same(4)] r_restoreOriginalOrder.IH
    by simp
next
  case (r_toggleRepeat q)
  then have "consistent (snd (toggleRepeat q))"
    by (simp add: toggleRepeat_def Let_def consistent_saveQueueState)
  then show ?case using saved(4) by (simp add: file_consistent_in_sync)
next
  case (r_clearQueue q)
  show ?case using saved(5) by (simp add: consistent_clearQueue file_consistent_in_sync)
next
  case (r_saveQueueState q)
  then show ?case
    by (simp add: consistent_saveQueueState file_consistent_in_sync in_sync_saveQueueState)
next
  case (r_loadQueueState q)
  then show ?case using consistent_loadQueueState [of q] by simp
qed

subsection \<open>Shuffling and restoring at once\<close>

lemma find_from_distinct:
  "distinct (map track_key ts) \<Longrightarrow> k < length ts \<Longrightarrow> find_from (ts ! k) p ts = InSeq (p + k)"
proof (induction ts arbitrary: p k)
  case Nil
  then show ?case by simp
next
  case (Cons t ts)
  show ?case
  proof (cases k)
    case 0
    then show ?thesis by (simp add: track_eq_key)
  next
    case (Suc j)
    with Cons.prems have j: "j < length ts" and d: "distinct (map track_key ts)"
      and n: "track_key t \<notin> set (map track_key ts)" by simp_all
    from j n have "track_key t \<noteq> track_key (ts ! j)" by (metis length_map nth_map nth_mem)
    then show ?thesis using Cons.IH [OF d j, of "Suc p"] Suc by (simp add: track_eq_key)
  qed
qed

lemma filter_known_empty:
  "set xs \<subseteq> set ys \<Longrightarrow>
   filter (\<lambda>t. \<not> list_ex (\<lambda>origTrack. track_eq t origTrack) ys) xs = []"
  by (auto simp: filter_empty_conv list_ex_track_eq')

lemma find_from_first:
  "k < length ts \<Longrightarrow>
   \<exists>i\<le>k. find_from (ts ! k) p ts = InSeq (p + i) \<and> track_eq (ts ! i) (ts ! k)"
proof (induction ts arbitrary: p k)
  case Nil
  then show ?case by simp
next
  case (Cons t ts)
  show ?case
  proof (cases "track_eq t ((t # ts) ! k)")
    case True
    then show ?thesis by (intro exI [of _ 0]) simp
  next
    case False
    then obtain j where j: "k = Suc j" by (cases k) (simp_all add: track_eq_def)
    with Cons.prems have "j < length ts" by simp
    from Cons.IH [OF this, of "Suc p"] obtain i where
      "i \<le> j" "find_from (ts ! j) (Suc p) ts = InSeq (Suc p + i)" "track_eq (ts ! i) (ts ! j)"
      by blast
    then show ?thesis using False j by (intro exI [of _ "Suc i"]) simp
  qed
qed

text \<open>
  C4, amended: in a queue that is not shuffled, whose active node is in the sequence and
  whose original order is the sequence or is empty, \<open>shuffleQueue\<close> followed at once by
  \<open>restoreOriginalOrder\<close> gives back the sequence as it was, track by track and in
  order, with an active track equal to the one before, whatever the random source draws.
  When no two tracks of the sequence are equal, the active node is at the same position
  and the active track is the same. Every state reached from a process that finds no state
  file meets these conditions (\<open>reachable_consistent\<close>).
\<close>

theorem shuffle_then_restore:
  assumes "activeNode q = InSeq k" and "k < length (sequence q)"
    and "originalSequence q = sequence q \<or> originalSequence q = []"
    and "\<not> shuffleEnabled q"
  shows "sequence (restoreOriginalOrder (shuffleQueue rnd q)) = sequence q \<and>
         (\<exists>t t'. getCurrentTrack (restoreOriginalOrder (shuffleQueue rnd q)) = Some t \<and>
                  getCurrentTrack q = Some t' \<and> track_eq t t') \<and>
         (distinct (map track_key (sequence q)) \<longrightarrow>
            activeNode (restoreOriginalOrder (shuffleQueue rnd q)) = activeNode q \<and>
            getCurrentTrack (restoreOriginalOrder (shuffleQueue rnd q)) = getCurrentTrack q)"
proof (cases "queueSize q \<le> 1")
  case True
  then have "restoreOriginalOrder (shuffleQueue rnd q) = q"
    using assms(4) by (simp add: shuffleQueue_def restoreOriginalOrder_def)
  then show ?thesis using assms(1,2) by (simp add: getCurrentTrack_def track_eq_def)
next
  case False
  then have sz: "1 < queueSize q" by simp
  let ?s = "take k (sequence q) @ sequence q ! k # py_shuffle rnd (drop (Suc k) (sequence q))"
  let ?q1 = "shuffleQueue rnd q"
  let ?q2 = "restoreOriginalOrder ?q1"
  note sh = shuffleQueue_active [OF assms(4) sz assms(1,2)]
  have f1: "sequence ?q1 = ?s" "originalSequence ?q1 = sequence q" "activeNode ?q1 = InSeq k"
    "shuffleEnabled ?q1"
    unfolding sh using assms(3) by (auto simp: saveQueueState_def)
  have "set ?s = set (sequence q)"
    using mset_rebuilt [OF assms(2), of rnd] by (metis set_mset_mset)
  then have new: "filter (\<lambda>t. \<not> list_ex (\<lambda>origTrack. track_eq t origTrack) (originalSequence ?q1))
      (sequence ?q1) = []"
    unfolding f1 by (intro filter_known_empty) simp
  have lk: "length (take k (sequence q)) = k" using assms(2) by simp
  have sk: "?s ! k = sequence q ! k" using lk by (simp add: nth_append)
  have ls: "k < length ?s" using lk by simp
  have td: "trackData (sequence ?q1) (activeNode ?q1) = Some (sequence q ! k)"
    unfolding f1 using sk ls by simp
  from find_from_first [OF assms(2), of 0] obtain i where
    i: "i \<le> k" "find_from (sequence q ! k) 0 (sequence q) = InSeq i"
    "track_eq (sequence q ! i) (sequence q ! k)" by auto
  have r: "(case trackData (sequence ?q1) (activeNode ?q1) of None \<Rightarrow> NoNode
            | Some a \<Rightarrow> find_from a 0 (originalSequence ?q1 @ [])) = InSeq i"
    unfolding td using i(2) by (simp add: f1)
  note rs = restoreOriginalOrder_shuffled [OF f1(4) new [symmetric] r [symmetric]]
  have il: "i < length (sequence q)" using i(1) assms(2) by simp
  have res: "sequence ?q2 = sequence q" "activeNode ?q2 = InSeq i"
    unfolding rs using il by (simp_all add: saveQueueState_def f1)
  have cur: "getCurrentTrack ?q2 = Some (sequence q ! i)"
    "getCurrentTrack q = Some (sequence q ! k)"
    using res il assms(1,2) by (simp_all add: getCurrentTrack_def)
  have dist: "i = k" if "distinct (map track_key (sequence q))"
    using find_from_distinct [OF that assms(2), of 0] i(2) by simp
  show ?thesis using res cur i(3) dist assms(1) by auto
qed

theorem shuffle_then_restore_witness:
  "activeNode queue_abc = InSeq 0 \<and> 0 < length (sequence queue_abc) \<and>
   originalSequence queue_abc = sequence queue_abc \<and> \<not> shuffleEnabled queue_abc \<and>
   distinct (map track_key (sequence queue_abc)) \<and>
   sequence (shuffleQueue (\<lambda>i. 0) queue_abc) = [track_a, track_c, track_b] \<and>
   sequence (restoreOriginalOrder (shuffleQueue (\<lambda>i. 0) queue_abc)) =
     [track_a, track_b, track_c] \<and>
   activeNode (restoreOriginalOrder (shuffleQueue (\<lambda>i. 0) queue_abc)) = InSeq 0 \<and>
   getCurrentTrack (restoreOriginalOrder (shuffleQueue (\<lambda>i. 0) queue_abc)) = Some track_a"
proof -
  have h: "activeNode queue_abc = InSeq 0" "0 < length (sequence queue_abc)"
    "originalSequence queue_abc = sequence queue_abc \<or> originalSequence queue_abc = []"
    "\<not> shuffleEnabled queue_abc"
    by (simp_all add: queue_abc_eq)
  have d: "distinct (map track_key (sequence queue_abc))"
    by (simp add: queue_abc_eq track_key_def track_a_def track_b_def track_c_def)
  have s: "1 < queueSize queue_abc" by (simp add: queue_abc_eq)
  have sq: "sequence (shuffleQueue (\<lambda>i. 0) queue_abc) = [track_a, track_c, track_b]"
    unfolding shuffleQueue_active [OF h(4) s h(1,2)]
    by (simp add: queue_abc_eq saveQueueState_def py_shuffle_def swap_def)
  note t = shuffle_then_restore [OF h, of "\<lambda>i. 0"]
  from t d h sq show ?thesis by (simp add: queue_abc_eq getCurrentTrack_def)
qed

lemma queue_edited_eq:
  "queue_edited = \<lparr>sequence = [track_a, track_b, track_c], activeNode = InSeq 0, queueSize = 3,
     shuffleEnabled = False, repeatEnabled = False, playbackActive = False,
     originalSequence = [track_c, track_b, track_a], stateFile = Parsed edited_data\<rparr>"
  by (simp add: queue_edited_def loadQueueState_def newQueue_def edited_data_def fromDict_toDict
      headNode_def)

text \<open>
  C4 as stated fails: the queue restored from the edited data is not empty and not
  shuffled, and shuffling then restoring turns its sequence round.
\<close>

theorem shuffle_then_restore_edited_file:
  "reachable (Parsed edited_data) queue_edited \<and>
   fst (loadQueueState (newQueue (Parsed edited_data))) \<and>
   sequence queue_edited = [track_a, track_b, track_c] \<and> \<not> shuffleEnabled queue_edited \<and>
   sequence (restoreOriginalOrder (shuffleQueue (\<lambda>i. 0) queue_edited)) =
     [track_c, track_b, track_a] \<and>
   sequence (restoreOriginalOrder (shuffleQueue (\<lambda>i. 0) queue_edited)) \<noteq> sequence queue_edited"
proof -
  have r: "reachable (Parsed edited_data) queue_edited"
    unfolding queue_edited_def by (rule r_loadQueueState) (rule r_new)
  have l: "fst (loadQueueState (newQueue (Parsed edited_data)))"
    by (simp add: loadQueueState_def newQueue_def edited_data_def fromDict_toDict)
  have h: "\<not> shuffleEnabled queue_edited" "1 < queueSize queue_edited"
    "activeNode queue_edited = InSeq 0" "0 < length (sequence queue_edited)"
    by (simp_all add: queue_edited_eq)
  have n: "\<not> track_eq track_a track_b" "\<not> track_eq track_a track_c" "\<not> track_eq track_b track_a"
    "\<not> track_eq track_b track_c" "\<not> track_eq track_c track_a" "\<not> track_eq track_c track_b"
    "track_eq track_a track_a" "track_eq track_b track_b" "track_eq track_c track_c"
    by (simp_all add: track_eq_def track_a_def track_b_def track_c_def)
  have sq: "sequence (restoreOriginalOrder (shuffleQueue (\<lambda>i. 0) queue_edited)) =
      [track_c, track_b, track_a]"
    unfolding shuffleQueue_active [OF h]
    by (simp add: restoreOriginalOrder_def Let_def appendNodes_eq saveQueueState_def
        queue_edited_eq py_shuffle_def swap_def n)
  have ne: "track_c \<noteq> track_a" by (simp add: track_a_def track_c_def)
  show ?thesis using r l h sq ne by (simp add: queue_edited_eq)
qed

text \<open>
  The condition on the active node is needed as well: from a queue with no active node,
  shuffling makes the head active, and the round trip ends with an active track where
  there was none.
\<close>

lemma queue_no_cursor_eq:
  "queue_no_cursor = \<lparr>sequence = [track_a, track_b, track_c], activeNode = NoNode, queueSize = 3,
     shuffleEnabled = False, repeatEnabled = False, playbackActive = False,
     originalSequence = [track_a, track_b, track_c], stateFile = Parsed no_cursor_data\<rparr>"
  by (simp add: queue_no_cursor_def loadQueueState_def newQueue_def no_cursor_data_def
      fromDict_toDict)

lemma shuffle_then_restore_no_cursor:
  "getCurrentTrack queue_no_cursor = None \<and>
   getCurrentTrack (restoreOriginalOrder (shuffleQueue (\<lambda>i. 0) queue_no_cursor)) = Some track_b"
proof -
  have n: "\<not> track_eq track_a track_b" "\<not> track_eq track_a track_c" "\<not> track_eq track_b track_a"
    "\<not> track_eq track_b track_c" "\<not> track_eq track_c track_a" "\<not> track_eq track_c track_b"
    "track_eq track_a track_a" "track_eq track_b track_b" "track_eq track_c track_c"
    by (simp_all add: track_eq_def track_a_def track_b_def track_c_def)
  have s: "shuffleQueue (\<lambda>i. 0) queue_no_cursor =
      saveQueueState (queue_no_cursor\<lparr>sequence := [track_b, track_c, track_a],
        activeNode := InSeq 0, shuffleEnabled := True\<rparr>)"
    by (intro queue.equality)
      (simp_all add: shuffleQueue_def Let_def appendNodes_eq saveQueueState_def
        queue_no_cursor_eq activeIndex_def py_shuffle_def swap_def headNode_def stateData_def
        numeral_2_eq_2)
  show ?thesis unfolding s
    by (simp add: restoreOriginalOrder_def Let_def appendNodes_eq saveQueueState_def
        queue_no_cursor_eq getCurrentTrack_def n)
qed

subsection \<open>Track equality\<close>

lemma unhex_hex_digit: "n < 16 \<Longrightarrow> unhex (hex_digit n) = n"
  by (simp add: unhex_def hex_digit_def)

lemma unhex_pair: "char_of (unhex (hex_digit (of_char c div 16)) * 16 + unhex (hex_digit (of_char c mod 16))) = c"
proof -
  have "(of_char c :: nat) < 16 * 16" using nat_of_char_less_256 [of c] by simp
  then have "(of_char c :: nat) div 16 < 16" by (rule less_mult_imp_div_less)
  then show ?thesis by (simp add: unhex_hex_digit)
qed

lemma unescape_repr_char:
  assumes "q = CHR 0x27 \<or> q = CHR 0x22"
  shows "unescape q (repr_char q c @ r) = (c, r)"
proof (cases r)
  case Nil
  then show ?thesis using assms unhex_pair [of c] by (auto simp: repr_char_def)
next
  case r1: (Cons a r1)
  show ?thesis
  proof (cases r1)
    case Nil
    then show ?thesis using assms r1 unhex_pair [of c] by (auto simp: repr_char_def)
  next
    case r2: (Cons b r2)
    show ?thesis
    proof (cases r2)
      case Nil
      then show ?thesis using assms r1 r2 unhex_pair [of c] by (auto simp: repr_char_def)
    next
      case (Cons d r3)
      then show ?thesis using assms r1 r2 unhex_pair [of c] by (auto simp: repr_char_def)
    qed
  qed
qed

lemma repr_char_cancel:
  assumes "q = CHR 0x27 \<or> q = CHR 0x22" and "repr_char q c @ r = repr_char q d @ r'"
  shows "c = d \<and> r = r'"
proof -
  have "unescape q (repr_char q c @ r) = unescape q (repr_char q d @ r')"
    using assms(2) by simp
  then show ?thesis by (simp add: unescape_repr_char [OF assms(1)])
qed

lemma repr_char_not_quote:
  assumes "q = CHR 0x27 \<or> q = CHR 0x22"
  shows "repr_char q c @ r \<noteq> q # r'"
proof -
  have "\<exists>x xs. repr_char q c = x # xs \<and> x \<noteq> q"
    using assms by (auto simp: repr_char_def)
  then show ?thesis by auto
qed

lemma repr_body_cancel:
  assumes "q = CHR 0x27 \<or> q = CHR 0x22"
  shows "concat (map (repr_char q) s) @ q # r = concat (map (repr_char q) s') @ q # r' \<Longrightarrow>
         s = s' \<and> r = r'"
proof (induction s arbitrary: s')
  case Nil
  then show ?case using repr_char_not_quote [OF assms, of _ _ r] by (cases s') (auto simp: eq_commute)
next
  case (Cons c s)
  show ?case
  proof (cases s')
    case Nil
    with Cons.prems show ?thesis using repr_char_not_quote [OF assms, of c _ r'] by simp
  next
    case (Cons d t)
    with Cons.prems have
      "repr_char q c @ (concat (map (repr_char q) s) @ q # r) =
       repr_char q d @ (concat (map (repr_char q) t) @ q # r')" by simp
    from repr_char_cancel [OF assms this] Cons.IH [of t] Cons show ?thesis by simp
  qed
qed

lemma repr_quote_cases: "repr_quote s = CHR 0x27 \<or> repr_quote s = CHR 0x22"
  by (simp add: repr_quote_def)

lemma py_repr_cancel:
  assumes "py_repr s @ r = py_repr s' @ r'"
  shows "s = s' \<and> r = r'"
proof -
  from assms have q: "repr_quote s = repr_quote s'" by (simp add: py_repr_def)
  from assms have "concat (map (repr_char (repr_quote s)) s) @ repr_quote s # r =
      concat (map (repr_char (repr_quote s)) s') @ repr_quote s # r'"
    unfolding py_repr_def q by simp
  from repr_body_cancel [OF repr_quote_cases this] show ?thesis .
qed

lemma py_repr_hd: "\<exists>t. py_repr s = repr_quote s # t"
  by (simp add: py_repr_def)

lemma join_comma_Cons:
  "join_comma (x # xs) @ r = x @ (if xs = [] then r else '', '' @ join_comma xs @ r)"
  by (cases xs) simp_all

lemma join_repr_inj:
  "join_comma (map py_repr l) @ '']'' = join_comma (map py_repr l') @ '']'' \<Longrightarrow> l = l'"
proof (induction l arbitrary: l')
  case Nil
  show ?case
  proof (cases l')
    case (Cons y ys)
    obtain t where "py_repr y = repr_quote y # t" using py_repr_hd by blast
    with Nil Cons repr_quote_cases [of y] show ?thesis
      by (auto simp: join_comma_Cons simp del: join_comma.simps(2,3))
  qed simp
next
  case (Cons x xs)
  show ?case
  proof (cases l')
    case Nil
    obtain t where "py_repr x = repr_quote x # t" using py_repr_hd by blast
    with Nil Cons.prems repr_quote_cases [of x] show ?thesis
      by (auto simp: join_comma_Cons simp del: join_comma.simps(2,3))
  next
    case c: (Cons y ys)
    let ?rx = "if map py_repr xs = [] then '']'' else '', '' @ join_comma (map py_repr xs) @ '']''"
    let ?ry = "if map py_repr ys = [] then '']'' else '', '' @ join_comma (map py_repr ys) @ '']''"
    from Cons.prems c have "py_repr x @ ?rx = py_repr y @ ?ry"
      by (simp add: join_comma_Cons del: join_comma.simps)
    from py_repr_cancel [OF this] have xy: "x = y" and r: "?rx = ?ry" by simp_all
    from r have "xs = ys" using Cons.IH [of ys] by (auto split: if_splits)
    with xy c show ?thesis by simp
  qed
qed

lemma py_str_Multiple_inj: "py_str (Multiple l) = py_str (Multiple l') \<Longrightarrow> l = l'"
  by (simp add: join_repr_inj)

text \<open>
  C1 as stated fails: two tracks whose titles differ only in case are the same by the
  identity rule of the specification, and \<open>Track.__eq__\<close> returns \<open>False\<close> for them.
\<close>

theorem track_eq_case_sensitive:
  "spec_track_eq track_a track_a_caps \<and> \<not> track_eq track_a track_a_caps"
  by code_simp

lemma track_eq_across_kinds: "track_eq track_b track_b_flat \<and> track_b \<noteq> track_b_flat"
  by (simp add: track_eq_def track_b_def track_b_flat_def py_repr_def repr_quote_def
      repr_char_def printable_def)

text \<open>
  C1, amended: \<open>Track.__eq__\<close> compares the four fields as they are, with no case
  normalisation, the artist through its \<open>str\<close>: it returns true exactly when title, album
  and duration are identical and the two artists have the same \<open>str\<close>. For two artists of
  the same kind, both a string or both a list of strings, that is exactly when all four
  fields are identical.
\<close>

theorem track_eq_exact:
  "(track_eq a b \<longleftrightarrow>
      trackTitle a = trackTitle b \<and> py_str (trackArtist a) = py_str (trackArtist b) \<and>
      trackAlbum a = trackAlbum b \<and> trackDuration a = trackDuration b) \<and>
   (same_kind (trackArtist a) (trackArtist b) \<longrightarrow> (track_eq a b \<longleftrightarrow> a = b))"
proof (intro conjI impI)
  show "track_eq a b \<longleftrightarrow>
      trackTitle a = trackTitle b \<and> py_str (trackArtist a) = py_str (trackArtist b) \<and>
      trackAlbum a = trackAlbum b \<and> trackDuration a = trackDuration b"
    by (simp add: track_eq_def)
next
  assume k: "same_kind (trackArtist a) (trackArtist b)"
  have "py_str (trackArtist a) = py_str (trackArtist b) \<longleftrightarrow> trackArtist a = trackArtist b"
    using k py_str_Multiple_inj
    by (cases "trackArtist a"; cases "trackArtist b") auto
  then show "track_eq a b \<longleftrightarrow> a = b"
    by (auto simp: track_eq_def)
qed

theorem track_eq_exact_witness:
  "same_kind (trackArtist track_b) (trackArtist track_b) \<and> track_eq track_b track_b \<and>
   same_kind (trackArtist track_a) (trackArtist track_a_caps) \<and>
   \<not> track_eq track_a track_a_caps"
proof -
  have k: "same_kind (trackArtist track_b) (trackArtist track_b)"
    "same_kind (trackArtist track_a) (trackArtist track_a_caps)"
    by (simp_all add: track_a_def track_b_def track_a_caps_def)
  have n: "track_a \<noteq> track_a_caps" by (simp add: track_a_def track_a_caps_def)
  note b = track_eq_exact [of track_b track_b, THEN conjunct2, rule_format, OF k(1)]
  note a = track_eq_exact [of track_a track_a_caps, THEN conjunct2, rule_format, OF k(2)]
  from a b k n show ?thesis by simp
qed

end
